theory Spec2Isabelle
  imports Complex_Main "HOL-Library.Multiset"
begin

section \<open>Strings\<close>

text \<open>
  Strings are lists of 8-bit characters, so the development covers ASCII text: runner
  labels, ISO timestamps, repository names. \<open>toLowerCase\<close> is
  \<^verbatim>\<open>String.prototype.toLowerCase\<close> on that alphabet.
\<close>

definition lower_char :: "char \<Rightarrow> char" where
  "lower_char c =
     (case map_of (zip ''ABCDEFGHIJKLMNOPQRSTUVWXYZ'' ''abcdefghijklmnopqrstuvwxyz'') c of
        Some d \<Rightarrow> d
      | None \<Rightarrow> c)"

definition toLowerCase :: "string \<Rightarrow> string" where
  "toLowerCase s = map lower_char s"

text \<open>\<^verbatim>\<open>s.startsWith(p)\<close> and \<^verbatim>\<open>s.includes(p)\<close>.\<close>

fun startsWith :: "string \<Rightarrow> string \<Rightarrow> bool" where
  "startsWith s [] = True"
| "startsWith [] (p # ps) = False"
| "startsWith (c # cs) (p # ps) = (c = p \<and> startsWith cs ps)"

fun includes_str :: "string \<Rightarrow> string \<Rightarrow> bool" where
  "includes_str [] p = (p = [])"
| "includes_str (c # cs) p = (startsWith (c # cs) p \<or> includes_str cs p)"

text \<open>
  \<^verbatim>\<open>s.split(sep)\<close> for a one-character separator: the pieces between the
  separators, at least one piece (\<^verbatim>\<open>"".split("T")\<close> is \<^verbatim>\<open>[""]\<close>).
\<close>

fun split_str :: "char \<Rightarrow> string \<Rightarrow> string list" where
  "split_str sep [] = [[]]"
| "split_str sep (c # cs) =
     (case split_str sep cs of
        [] \<Rightarrow> (if c = sep then [[], []] else [[c]])
      | piece # pieces \<Rightarrow> (if c = sep then [] # piece # pieces else (c # piece) # pieces))"

text \<open>\<^verbatim>\<open>parts.join(sep)\<close>.\<close>

fun join_str :: "string \<Rightarrow> string list \<Rightarrow> string" where
  "join_str sep [] = []"
| "join_str sep [p] = p"
| "join_str sep (p # q # ps) = p @ sep @ join_str sep (q # ps)"

text \<open>
  JavaScript truthiness of a \<^verbatim>\<open>string | null\<close> value, as tested by
  \<^verbatim>\<open>!x\<close>, \<^verbatim>\<open>if (x)\<close> and \<^verbatim>\<open>x || y\<close>: \<^verbatim>\<open>null\<close>,
  \<^verbatim>\<open>undefined\<close> and the empty string are falsy. \<open>None\<close> stands for both
  \<^verbatim>\<open>null\<close> and \<^verbatim>\<open>undefined\<close>.
\<close>

fun truthy :: "string option \<Rightarrow> bool" where
  "truthy None = False"
| "truthy (Some s) = (s \<noteq> [])"

text \<open>\<^verbatim>\<open>x || fallback\<close> on such a value.\<close>

fun or_else :: "string option \<Rightarrow> string \<Rightarrow> string" where
  "or_else None d = d"
| "or_else (Some s) d = (if s = [] then d else s)"

section \<open>Billing: data model\<close>

datatype OSType = Linux | Windows | Macos | Unknown

record LabelMapping =
  pattern :: string
  os :: OSType

datatype error = SyntaxError

text \<open>GitHub.com billing multipliers (\<^verbatim>\<open>MULTIPLIERS\<close>).\<close>

fun MULTIPLIERS :: "OSType \<Rightarrow> real" where
  "MULTIPLIERS Linux = 1"
| "MULTIPLIERS Windows = 2"
| "MULTIPLIERS Macos = 10"
| "MULTIPLIERS Unknown = 1"

text \<open>Default patterns for OS detection from runner labels.\<close>

definition DEFAULT_PATTERNS :: "LabelMapping list" where
  "DEFAULT_PATTERNS =
     [\<lparr>pattern = ''ubuntu'', os = Linux\<rparr>,
      \<lparr>pattern = ''linux'', os = Linux\<rparr>,
      \<lparr>pattern = ''windows'', os = Windows\<rparr>,
      \<lparr>pattern = ''win'', os = Windows\<rparr>,
      \<lparr>pattern = ''macos'', os = Macos\<rparr>,
      \<lparr>pattern = ''mac'', os = Macos\<rparr>,
      \<lparr>pattern = ''darwin'', os = Macos\<rparr>]"

section \<open>Glob patterns through regular expressions\<close>

text \<open>
  \<^verbatim>\<open>matchesPattern\<close> rewrites the pattern into the source text of a regular
  expression and hands it to \<^verbatim>\<open>new RegExp(..., 'i')\<close>. The first
  \<^verbatim>\<open>replace\<close> puts a backslash before each of
  \<^verbatim>\<open>. + ^ $ { } ( ) | [ ] \\<close>; the second turns each \<^verbatim>\<open>*\<close> into
  \<^verbatim>\<open>.*\<close>. No other character is touched; the question mark in particular
  reaches the regular expression as it is.
\<close>

definition backslash :: char where
  "backslash = CHR 0x5C"

definition special_chars :: "char list" where
  "special_chars = ''.+^${}()|[]'' @ [backslash]"

definition escapeSpecial :: "string \<Rightarrow> string" where
  "escapeSpecial p = concat (map (\<lambda>c. if c \<in> set special_chars then [backslash, c] else [c]) p)"

definition replaceStar :: "string \<Rightarrow> string" where
  "replaceStar p = concat (map (\<lambda>c. if c = CHR ''*'' then ''.*'' else [c]) p)"

text \<open>
  The regular expressions that can come out of this rewriting are sequences of terms:
  the assertions \<^verbatim>\<open>^\<close> and \<^verbatim>\<open>$\<close>, and atoms (a literal character, escaped
  or not, or the dot) with an optional quantifier \<^verbatim>\<open>*\<close> or \<^verbatim>\<open>?\<close>, itself
  optionally followed by the laziness mark \<^verbatim>\<open>?\<close>. \<open>RegExp\<close> parses that
  fragment of the ECMAScript pattern grammar. A quantifier with no atom before it (at
  the start, after an assertion, after a complete quantifier) is the engine's
  \<^verbatim>\<open>SyntaxError: Nothing to repeat\<close>, thrown by the constructor.
\<close>

datatype atom = Lit char | AnyChar

datatype quant = One | Opt | Star

datatype node = Bol | Eol | Term atom quant

fun quantifier :: "string \<Rightarrow> quant \<times> string" where
  "quantifier [] = (One, [])"
| "quantifier (c # cs) =
     (if c = CHR ''*'' \<or> c = CHR ''?'' then
        (if c = CHR ''*'' then Star else Opt,
         case cs of [] \<Rightarrow> [] | d # ds \<Rightarrow> if d = CHR ''?'' then ds else d # ds)
      else (One, c # cs))"

lemma quantifier_length: "length (snd (quantifier s)) \<le> length s"
  by (cases s) (auto split: list.splits)

fun cons_node :: "node \<Rightarrow> error + node list \<Rightarrow> error + node list" where
  "cons_node n (Inl e) = Inl e"
| "cons_node n (Inr ns) = Inr (n # ns)"

function RegExp :: "string \<Rightarrow> error + node list" where
  "RegExp [] = Inr []"
| "RegExp (c # cs) =
     (if c = CHR ''^'' then cons_node Bol (RegExp cs)
      else if c = CHR ''$'' then cons_node Eol (RegExp cs)
      else if c = CHR ''*'' \<or> c = CHR ''?'' then Inl SyntaxError
      else if c = backslash then
        (case cs of
           [] \<Rightarrow> Inl SyntaxError
         | d # ds \<Rightarrow> cons_node (Term (Lit d) (fst (quantifier ds))) (RegExp (snd (quantifier ds))))
      else if c = CHR ''.'' then
        cons_node (Term AnyChar (fst (quantifier cs))) (RegExp (snd (quantifier cs)))
      else cons_node (Term (Lit c) (fst (quantifier cs))) (RegExp (snd (quantifier cs))))"
  by pat_completeness auto
termination
  by (relation "measure length") (auto simp: quantifier_length le_imp_less_Suc less_SucI)

text \<open>
  Matching. With the \<^verbatim>\<open>i\<close> flag two characters match when they are equal up to
  case; the dot matches every character but the line terminators.
\<close>

definition line_terminator :: "char \<Rightarrow> bool" where
  "line_terminator c = (c = CHR 0x0A \<or> c = CHR 0x0D)"

fun atom_matches :: "atom \<Rightarrow> char \<Rightarrow> bool" where
  "atom_matches (Lit p) c = (lower_char p = lower_char c)"
| "atom_matches AnyChar c = (\<not> line_terminator c)"

text \<open>
  \<open>match_here ns at_start s\<close>: the terms \<open>ns\<close> match a prefix of \<open>s\<close>;
  \<open>at_start\<close> says that \<open>s\<close> is the whole input (\<^verbatim>\<open>^\<close> matches only there,
  \<^verbatim>\<open>$\<close> only at the end, as the \<^verbatim>\<open>m\<close> flag is not set).
\<close>

fun match_here :: "node list \<Rightarrow> bool \<Rightarrow> string \<Rightarrow> bool" where
  "match_here [] at_start s = True"
| "match_here (Bol # ns) at_start s = (at_start \<and> match_here ns at_start s)"
| "match_here (Eol # ns) at_start s = (s = [] \<and> match_here ns at_start s)"
| "match_here (Term a One # ns) at_start [] = False"
| "match_here (Term a One # ns) at_start (c # cs) = (atom_matches a c \<and> match_here ns False cs)"
| "match_here (Term a Opt # ns) at_start [] = match_here ns at_start []"
| "match_here (Term a Opt # ns) at_start (c # cs) =
     ((atom_matches a c \<and> match_here ns False cs) \<or> match_here ns at_start (c # cs))"
| "match_here (Term a Star # ns) at_start [] = match_here ns at_start []"
| "match_here (Term a Star # ns) at_start (c # cs) =
     ((atom_matches a c \<and> match_here (Term a Star # ns) False cs) \<or> match_here ns at_start (c # cs))"

text \<open>\<^verbatim>\<open>re.test(s)\<close>: a match starting at some index of \<open>s\<close>.\<close>

fun search :: "node list \<Rightarrow> bool \<Rightarrow> string \<Rightarrow> bool" where
  "search ns at_start [] = match_here ns at_start []"
| "search ns at_start (c # cs) = (match_here ns at_start (c # cs) \<or> search ns False cs)"

definition RegExp_test :: "node list \<Rightarrow> string \<Rightarrow> bool" where
  "RegExp_test re s = search re True s"

text \<open>Check if a label matches a pattern (supports \<^verbatim>\<open>*\<close> wildcard).\<close>

definition matchesPattern :: "string \<Rightarrow> string \<Rightarrow> error + bool" where
  "matchesPattern label pat =
     (let regexPattern = replaceStar (escapeSpecial pat) in
      case RegExp (''^'' @ regexPattern @ ''$'') of
        Inl e \<Rightarrow> Inl e
      | Inr re \<Rightarrow> Inr (RegExp_test re label))"

section \<open>OS detection\<close>

text \<open>
  The inner loop of the custom mappings: the labels in order, until one matches. The
  regular expression is built anew for every label, so an ill-formed pattern throws at
  the first label, and not at all when there is no label.
\<close>

fun custom_labels :: "string list \<Rightarrow> string \<Rightarrow> error + bool" where
  "custom_labels [] pat = Inr False"
| "custom_labels (label # rest) pat =
     (case matchesPattern label pat of
        Inl e \<Rightarrow> Inl e
      | Inr True \<Rightarrow> Inr True
      | Inr False \<Rightarrow> custom_labels rest pat)"

fun custom_loop :: "string list \<Rightarrow> LabelMapping list \<Rightarrow> error + OSType option" where
  "custom_loop lowerLabels [] = Inr None"
| "custom_loop lowerLabels (mapping # rest) =
     (case custom_labels lowerLabels (pattern mapping) of
        Inl e \<Rightarrow> Inl e
      | Inr True \<Rightarrow> Inr (Some (os mapping))
      | Inr False \<Rightarrow> custom_loop lowerLabels rest)"

fun default_loop :: "string list \<Rightarrow> LabelMapping list \<Rightarrow> OSType option" where
  "default_loop lowerLabels [] = None"
| "default_loop lowerLabels (mapping # rest) =
     (if \<exists>label \<in> set lowerLabels. includes_str label (pattern mapping) then Some (os mapping)
      else default_loop lowerLabels rest)"

text \<open>Detect OS type from runner labels.\<close>

definition detectOS :: "string list \<Rightarrow> LabelMapping list \<Rightarrow> error + OSType" where
  "detectOS labels customMappings =
     (let lowerLabels = map toLowerCase labels in
      case custom_loop lowerLabels customMappings of
        Inl e \<Rightarrow> Inl e
      | Inr (Some found) \<Rightarrow> Inr found
      | Inr None \<Rightarrow>
          (case default_loop lowerLabels DEFAULT_PATTERNS of
             Some found \<Rightarrow> Inr found
           | None \<Rightarrow> Inr Unknown))"

subsection \<open>The classification as the specification words it\<close>

text \<open>
  Glob matching of a whole label, without regard to case, where \<^verbatim>\<open>*\<close> stands for
  any sequence of characters and every other character for itself.
\<close>

fun spec_glob_match :: "string \<Rightarrow> string \<Rightarrow> bool" where
  "spec_glob_match [] s = (s = [])"
| "spec_glob_match (p # ps) [] = (p = CHR ''*'' \<and> spec_glob_match ps [])"
| "spec_glob_match (p # ps) (c # cs) =
     (if p = CHR ''*'' then spec_glob_match ps (c # cs) \<or> spec_glob_match (p # ps) cs
      else lower_char p = lower_char c \<and> spec_glob_match ps cs)"

text \<open>
  The built-in table in its declared order, tested by substring containment on the
  lower-cased label, after the custom mappings in their order.
\<close>

definition spec_table :: "(string \<times> OSType) list" where
  "spec_table =
     [(''ubuntu'', Linux), (''linux'', Linux), (''windows'', Windows), (''win'', Windows),
      (''macos'', Macos), (''mac'', Macos), (''darwin'', Macos)]"

definition spec_detectOS :: "string list \<Rightarrow> LabelMapping list \<Rightarrow> OSType" where
  "spec_detectOS ls customMappings =
     (case find (\<lambda>m. \<exists>label \<in> set ls. spec_glob_match (pattern m) label) customMappings of
        Some m \<Rightarrow> LabelMapping.os m
      | None \<Rightarrow>
          (case find (\<lambda>entry. \<exists>label \<in> set ls. includes_str (toLowerCase label) (fst entry)) spec_table of
             Some entry \<Rightarrow> snd entry
           | None \<Rightarrow> Unknown))"

text \<open>
  For the comparison: what the two \<^verbatim>\<open>replace\<close> calls make of one character of
  the pattern, the term that \<open>RegExp\<close> reads from it, and the texts that do not start
  with a quantifier.
\<close>

definition rewrite_char :: "char \<Rightarrow> string" where
  "rewrite_char c =
     (if c \<in> set special_chars then [backslash, c] else if c = CHR ''*'' then ''.*'' else [c])"

definition node_of :: "char \<Rightarrow> node" where
  "node_of c = (if c = CHR ''*'' then Term AnyChar Star else Term (Lit c) One)"

definition no_quantifier_ahead :: "string \<Rightarrow> bool" where
  "no_quantifier_ahead s = (case s of [] \<Rightarrow> True | c # cs \<Rightarrow> c \<noteq> CHR ''*'' \<and> c \<noteq> CHR ''?'')"

section \<open>Jobs\<close>

text \<open>
  A JavaScript \<^verbatim>\<open>number\<close> that holds an identifier or a count is an integer
  or a natural number here; minutes and costs are real numbers, that is, the arithmetic
  is exact where IEEE doubles round.
\<close>

record WorkflowJob =
  id' :: int
  run_id :: int
  name :: string
  status :: string
  conclusion :: "string option"
  started_at :: string
  completed_at :: "string option"
  labels :: "string list"
  runner_name :: "string option"
  runner_group_name :: "string option"

record JobWithRepo = WorkflowJob +
  repo_full_name :: string
  workflow_name :: "string option"

record BillingResult =
  job :: JobWithRepo
  os :: OSType
  durationMinutes :: real
  multiplier :: real
  billableMinutes :: real

text \<open>
  The entries of the four rollups: \<^verbatim>\<open>{ minutes, billableMinutes, jobCount }\<close>,
  with \<^verbatim>\<open>runCount\<close> for a workflow and the set \<^verbatim>\<open>workflows\<close> for a
  repository.
\<close>

record Usage =
  minutes :: real
  billableMinutes :: real
  jobCount :: nat

record WorkflowUsage = Usage +
  runCount :: nat

record RepoUsage = Usage +
  workflows :: "string set"

text \<open>
  \<^verbatim>\<open>byOS\<close> has the four fixed keys; the other rollups are objects used as
  dictionaries, modelled as maps from the key to the entry (the order in which
  JavaScript enumerates the keys is not modelled, nor are keys that collide with a
  property inherited from \<^verbatim>\<open>Object.prototype\<close>).
\<close>

record AggregatedBilling =
  totalMinutes :: real
  totalBillableMinutes :: real
  byOS :: "OSType \<Rightarrow> Usage"
  byWorkflow :: "string \<rightharpoonup> WorkflowUsage"
  byRepo :: "string \<rightharpoonup> RepoUsage"
  byDate :: "string \<rightharpoonup> Usage"
  jobCount :: nat
  runCount :: nat
  jobs :: "BillingResult list"

section \<open>Durations\<close>

text \<open>
  \<^verbatim>\<open>new Date(s).getTime()\<close> belongs to the JavaScript runtime: it is the
  parameter \<open>getTime\<close>, the milliseconds since the epoch that a timestamp denotes.
  Timestamps that do not parse (\<^verbatim>\<open>NaN\<close>) are outside the model.
\<close>

type_synonym clock = "string \<Rightarrow> int"

text \<open>Get the billing multiplier for an OS type.\<close>

definition getMultiplier :: "OSType \<Rightarrow> real" where
  "getMultiplier os_type = MULTIPLIERS os_type"

text \<open>
  Calculate the duration in minutes between two timestamps. GitHub rounds UP to the
  nearest minute per job.
\<close>

definition calculateDurationMinutes :: "clock \<Rightarrow> string \<Rightarrow> string \<Rightarrow> real" where
  "calculateDurationMinutes getTime startedAt completedAt =
     (let start = getTime startedAt;
          end = getTime completedAt;
          durationMs = end - start
      in of_int \<lceil>real_of_int durationMs / 1000 / 60\<rceil>)"

text \<open>Calculate billable minutes for a job.\<close>

definition calculateBillableMinutes :: "clock \<Rightarrow> string \<Rightarrow> string \<Rightarrow> real \<Rightarrow> real" where
  "calculateBillableMinutes getTime startedAt completedAt factor =
     (let durationMinutes = calculateDurationMinutes getTime startedAt completedAt
      in durationMinutes * factor)"

text \<open>
  Process a single job and return billing details. \<open>job_duration\<close> is the call
  \<^verbatim>\<open>calculateDurationMinutes(job.started_at, job.completed_at!)\<close>: the assertion
  is erased at run time, where \<^verbatim>\<open>new Date(null)\<close> is the epoch.
  \<open>aggregateBilling\<close> never calls it so.
\<close>

definition job_duration :: "clock \<Rightarrow> JobWithRepo \<Rightarrow> real" where
  "job_duration getTime j =
     (case completed_at j of
        Some completedAt \<Rightarrow> calculateDurationMinutes getTime (started_at j) completedAt
      | None \<Rightarrow> of_int \<lceil>real_of_int (0 - getTime (started_at j)) / 1000 / 60\<rceil>)"

definition processJob :: "clock \<Rightarrow> JobWithRepo \<Rightarrow> LabelMapping list \<Rightarrow> error + BillingResult" where
  "processJob getTime j customMappings =
     (case detectOS (labels j) customMappings of
        Inl e \<Rightarrow> Inl e
      | Inr os_type \<Rightarrow>
          (let factor = getMultiplier os_type;
               durationMinutes = job_duration getTime j;
               billable = durationMinutes * factor
           in Inr \<lparr>job = j, os = os_type, durationMinutes = durationMinutes,
                   multiplier = factor, BillingResult.billableMinutes = billable\<rparr>))"

section \<open>Aggregation\<close>

definition initial_result :: AggregatedBilling where
  "initial_result =
     \<lparr>totalMinutes = 0,
      totalBillableMinutes = 0,
      byOS = (\<lambda>_. \<lparr>minutes = 0, billableMinutes = 0, Usage.jobCount = 0\<rparr>),
      byWorkflow = Map.empty,
      byRepo = Map.empty,
      byDate = Map.empty,
      jobCount = 0,
      runCount = 0,
      jobs = []\<rparr>"

text \<open>
  The three statements that every rollup repeats:
  \<^verbatim>\<open>e.minutes += billing.durationMinutes; e.billableMinutes += billing.billableMinutes; e.jobCount++\<close>.
\<close>

definition accumulate :: "BillingResult \<Rightarrow> 'a Usage_scheme \<Rightarrow> 'a Usage_scheme" where
  "accumulate billing e =
     e\<lparr>minutes := minutes e + durationMinutes billing,
       Usage.billableMinutes := Usage.billableMinutes e + BillingResult.billableMinutes billing,
       Usage.jobCount := Suc (Usage.jobCount e)\<rparr>"

text \<open>\<^verbatim>\<open>if (!m[k]) m[k] = fresh\<close>, then the entry \<^verbatim>\<open>m[k]\<close>.\<close>

definition entry_or :: "('k \<rightharpoonup> 'v) \<Rightarrow> 'k \<Rightarrow> 'v \<Rightarrow> 'v" where
  "entry_or m k fresh = (case m k of None \<Rightarrow> fresh | Some e \<Rightarrow> e)"

definition workflowKey :: "JobWithRepo \<Rightarrow> string" where
  "workflowKey j = repo_full_name j @ ''/'' @ or_else (workflow_name j) ''unknown''"

definition dateKey :: "JobWithRepo \<Rightarrow> string" where
  "dateKey j = hd (split_str (CHR ''T'') (started_at j))"

text \<open>The body of the first loop of \<open>aggregateBilling\<close>, after \<open>processJob\<close>.\<close>

definition aggregate_step ::
  "JobWithRepo \<Rightarrow> BillingResult \<Rightarrow> AggregatedBilling \<times> int set \<Rightarrow> AggregatedBilling \<times> int set" where
  "aggregate_step j billing st =
     (let result = fst st;
          seenRunIds = snd st;
          result = result\<lparr>jobs := jobs result @ [billing]\<rparr>;
          seenRunIds = insert (run_id j) seenRunIds;
          result = result\<lparr>totalMinutes := totalMinutes result + durationMinutes billing\<rparr>;
          result = result\<lparr>totalBillableMinutes :=
                     totalBillableMinutes result + BillingResult.billableMinutes billing\<rparr>;
          result = result\<lparr>jobCount := Suc (jobCount result)\<rparr>;
          result = result\<lparr>byOS := (byOS result)
                     (BillingResult.os billing := accumulate billing (byOS result (BillingResult.os billing)))\<rparr>;
          wk = workflowKey j;
          result = result\<lparr>byWorkflow := (byWorkflow result)
                     (wk \<mapsto> accumulate billing
                        (entry_or (byWorkflow result) wk
                           \<lparr>minutes = 0, billableMinutes = 0, jobCount = 0, WorkflowUsage.runCount = 0\<rparr>))\<rparr>;
          repoKey = repo_full_name j;
          result = result\<lparr>byRepo := (byRepo result)
                     (repoKey \<mapsto>
                        (let e = accumulate billing
                           (entry_or (byRepo result) repoKey
                              \<lparr>minutes = 0, billableMinutes = 0, jobCount = 0, workflows = {}\<rparr>)
                         in e\<lparr>workflows := insert (or_else (workflow_name j) ''unknown'') (workflows e)\<rparr>))\<rparr>;
          dk = dateKey j;
          result = result\<lparr>byDate := (byDate result)
                     (dk \<mapsto> accumulate billing
                        (entry_or (byDate result) dk
                           \<lparr>minutes = 0, billableMinutes = 0, Usage.jobCount = 0\<rparr>))\<rparr>
      in (result, seenRunIds))"

text \<open>A job counts as completed when its \<^verbatim>\<open>completed_at\<close> is truthy.\<close>

definition completed :: "JobWithRepo \<Rightarrow> bool" where
  "completed j = truthy (completed_at j)"

text \<open>
  The first loop: jobs whose \<^verbatim>\<open>completed_at\<close> is falsy are skipped; an exception
  of \<open>processJob\<close> leaves the loop and the function.
\<close>

fun aggregate_loop ::
  "clock \<Rightarrow> LabelMapping list \<Rightarrow> JobWithRepo list \<Rightarrow> AggregatedBilling \<times> int set
     \<Rightarrow> error + AggregatedBilling \<times> int set" where
  "aggregate_loop getTime customMappings [] st = Inr st"
| "aggregate_loop getTime customMappings (j # rest) st =
     (if \<not> completed j then aggregate_loop getTime customMappings rest st
      else
        (case processJob getTime j customMappings of
           Inl e \<Rightarrow> Inl e
         | Inr billing \<Rightarrow> aggregate_loop getTime customMappings rest (aggregate_step j billing st)))"

text \<open>
  The pass that collects the run ids of each workflow key (the loop before it in the
  source computes a key and drops it).
\<close>

fun runs_loop :: "JobWithRepo list \<Rightarrow> (string \<rightharpoonup> int set) \<Rightarrow> (string \<rightharpoonup> int set)" where
  "runs_loop [] runsByWorkflow = runsByWorkflow"
| "runs_loop (j # rest) runsByWorkflow =
     (if \<not> completed j then runs_loop rest runsByWorkflow
      else
        (let wk = workflowKey j
         in runs_loop rest
              (runsByWorkflow(wk \<mapsto> insert (run_id j) (entry_or runsByWorkflow wk {})))))"

text \<open>
  \<^verbatim>\<open>for (const [key, runs] of runsByWorkflow) if (result.byWorkflow[key]) result.byWorkflow[key].runCount = runs.size\<close>:
  every key of \<open>runsByWorkflow\<close> is visited once and only its own entry is written.
\<close>

definition set_runCounts ::
  "(string \<rightharpoonup> int set) \<Rightarrow> (string \<rightharpoonup> WorkflowUsage) \<Rightarrow> (string \<rightharpoonup> WorkflowUsage)" where
  "set_runCounts runsByWorkflow m =
     (\<lambda>key. case runsByWorkflow key of
               None \<Rightarrow> m key
             | Some runs \<Rightarrow>
                 (case m key of
                    None \<Rightarrow> None
                  | Some e \<Rightarrow> Some (e\<lparr>WorkflowUsage.runCount := card runs\<rparr>)))"

text \<open>Process all jobs and aggregate billing data.\<close>

definition aggregateBilling ::
  "clock \<Rightarrow> JobWithRepo list \<Rightarrow> LabelMapping list \<Rightarrow> error + AggregatedBilling" where
  "aggregateBilling getTime js customMappings =
     (case aggregate_loop getTime customMappings js (initial_result, {}) of
        Inl e \<Rightarrow> Inl e
      | Inr st \<Rightarrow>
          (let result = fst st;
               seenRunIds = snd st;
               runsByWorkflow = runs_loop js Map.empty;
               result = result\<lparr>byWorkflow := set_runCounts runsByWorkflow (byWorkflow result)\<rparr>;
               result = result\<lparr>runCount := card seenRunIds\<rparr>
           in Inr result))"

text \<open>The sum of the job counts of the entries of a rollup.\<close>

definition count_sum :: "('k \<rightharpoonup> 'a Usage_scheme) \<Rightarrow> nat" where
  "count_sum m = (\<Sum>k \<in> dom m. Usage.jobCount (the (m k)))"

subsection \<open>The result in closed form\<close>

text \<open>
  Notions for the proofs: the billing of a job when its OS can be detected, the job
  lists that \<open>aggregateBilling\<close> can process, the update that one job makes to each
  rollup, and the result of \<open>aggregateBilling\<close> as folds of these updates.
\<close>

definition billing_of :: "clock \<Rightarrow> LabelMapping list \<Rightarrow> JobWithRepo \<Rightarrow> BillingResult" where
  "billing_of getTime cm j =
     (let os_type = (case detectOS (labels j) cm of Inl e \<Rightarrow> Unknown | Inr found \<Rightarrow> found)
      in \<lparr>job = j, os = os_type, durationMinutes = job_duration getTime j,
          multiplier = MULTIPLIERS os_type,
          BillingResult.billableMinutes = job_duration getTime j * MULTIPLIERS os_type\<rparr>)"

text \<open>Every completed job can be processed: no pattern that it reaches is ill-formed.\<close>

definition processable :: "LabelMapping list \<Rightarrow> JobWithRepo list \<Rightarrow> bool" where
  "processable cm js = list_all (\<lambda>j. detectOS (labels j) cm \<noteq> Inl SyntaxError) (filter completed js)"

text \<open>The updates of the rollups, one job at a time.\<close>

definition upd_os :: "(JobWithRepo \<Rightarrow> BillingResult) \<Rightarrow> JobWithRepo \<Rightarrow> (OSType \<Rightarrow> Usage) \<Rightarrow> (OSType \<Rightarrow> Usage)" where
  "upd_os b j f = f(BillingResult.os (b j) := accumulate (b j) (f (BillingResult.os (b j))))"

definition upd_usage ::
  "(JobWithRepo \<Rightarrow> string) \<Rightarrow> 'a Usage_scheme \<Rightarrow> (JobWithRepo \<Rightarrow> BillingResult) \<Rightarrow> JobWithRepo
     \<Rightarrow> (string \<rightharpoonup> 'a Usage_scheme) \<Rightarrow> (string \<rightharpoonup> 'a Usage_scheme)" where
  "upd_usage key fresh b j m = m(key j \<mapsto> accumulate (b j) (entry_or m (key j) fresh))"

definition upd_repo ::
  "(JobWithRepo \<Rightarrow> BillingResult) \<Rightarrow> JobWithRepo \<Rightarrow> (string \<rightharpoonup> RepoUsage) \<Rightarrow> (string \<rightharpoonup> RepoUsage)" where
  "upd_repo b j m =
     m(repo_full_name j \<mapsto>
        (accumulate (b j)
           (entry_or m (repo_full_name j) \<lparr>minutes = 0, billableMinutes = 0, jobCount = 0, workflows = {}\<rparr>))
        \<lparr>workflows := insert (or_else (workflow_name j) ''unknown'')
            (workflows (entry_or m (repo_full_name j)
              \<lparr>minutes = 0, billableMinutes = 0, jobCount = 0, workflows = {}\<rparr>))\<rparr>)"

definition upd_runs :: "JobWithRepo \<Rightarrow> (string \<rightharpoonup> int set) \<Rightarrow> (string \<rightharpoonup> int set)" where
  "upd_runs j m = m(workflowKey j \<mapsto> insert (run_id j) (entry_or m (workflowKey j) {}))"

definition aggregate_result :: "clock \<Rightarrow> LabelMapping list \<Rightarrow> JobWithRepo list \<Rightarrow> AggregatedBilling" where
  "aggregate_result getTime cm js =
     (let st = fold (\<lambda>j. aggregate_step j (billing_of getTime cm j)) (filter completed js) (initial_result, {})
      in (fst st)\<lparr>byWorkflow := set_runCounts (runs_loop js Map.empty) (byWorkflow (fst st)),
                  runCount := card (snd st)\<rparr>)"

text \<open>The sum of the job counts of the four OS buckets.\<close>

definition os_count_sum :: "(OSType \<Rightarrow> Usage) \<Rightarrow> nat" where
  "os_count_sum f =
     Usage.jobCount (f Linux) + Usage.jobCount (f Windows) + Usage.jobCount (f Macos)
       + Usage.jobCount (f Unknown)"

definition os_billable_sum :: "(OSType \<Rightarrow> Usage) \<Rightarrow> real" where
  "os_billable_sum f =
     Usage.billableMinutes (f Linux) + Usage.billableMinutes (f Windows)
       + Usage.billableMinutes (f Macos) + Usage.billableMinutes (f Unknown)"

section \<open>Double-precision arithmetic\<close>

text \<open>
  A JavaScript number is an IEEE 754 double, and an arithmetic operation on doubles
  returns the exact result rounded to the nearest double, ties going to the even
  significand. A finite double is an integer of at most 53 bits times a power of two,
  the power being at least \<open>2 ^ - 1074\<close>. \<open>double x\<close> is the double nearest to
  the real \<open>x\<close>; infinities and \<^verbatim>\<open>NaN\<close> have no counterpart, nor has the sign
  of zero.

  \<open>exponent x\<close>, for \<open>0 < x\<close>, is the \<open>k\<close> with \<open>2 ^ k \<le> x < 2 ^ (k + 1)\<close>:
  the number of times that \<open>x\<close> is halved until it is below 2, or doubled until it
  is at least 1.
\<close>

function halvings :: "real \<Rightarrow> nat" where
  "halvings x = (if 2 \<le> x then Suc (halvings (x / 2)) else 0)"
  by pat_completeness auto
termination
proof (relation "measure (\<lambda>x. nat \<lfloor>x\<rfloor>)")
  show "wf (measure (\<lambda>x. nat \<lfloor>x\<rfloor>))" by simp
next
  fix x :: real
  assume "2 \<le> x"
  then have "\<lfloor>x / 2\<rfloor> < \<lfloor>x\<rfloor>" by linarith
  moreover from \<open>2 \<le> x\<close> have "0 < \<lfloor>x\<rfloor>" by linarith
  ultimately show "(x / 2, x) \<in> measure (\<lambda>x. nat \<lfloor>x\<rfloor>)" by simp
qed

function doublings :: "real \<Rightarrow> nat" where
  "doublings x = (if 0 < x \<and> x < 1 then Suc (doublings (2 * x)) else 0)"
  by pat_completeness auto
termination
proof (relation "measure (\<lambda>x. nat \<lfloor>1 / x\<rfloor>)")
  show "wf (measure (\<lambda>x. nat \<lfloor>1 / x\<rfloor>))" by simp
next
  fix x :: real
  assume a: "0 < x \<and> x < 1"
  define y where "y = 1 / x"
  from a have y: "1 < y" by (simp add: y_def)
  from y have f: "1 \<le> \<lfloor>y\<rfloor>" by linarith
  then have "y / 2 < of_int \<lfloor>y\<rfloor>" by linarith
  then have "\<lfloor>y / 2\<rfloor> < \<lfloor>y\<rfloor>" by (simp add: floor_less_iff)
  moreover from f have "0 < \<lfloor>y\<rfloor>" by linarith
  moreover have "1 / (2 * x) = y / 2" by (simp add: y_def)
  ultimately show "(2 * x, x) \<in> measure (\<lambda>x. nat \<lfloor>1 / x\<rfloor>)" by (simp add: y_def mult.commute)
qed

declare halvings.simps [simp del] doublings.simps [simp del]

definition exponent :: "real \<Rightarrow> int" where
  "exponent x = (if 1 \<le> x then int (halvings x) else - int (doublings x))"

text \<open>The integer nearest to \<open>y\<close>, the even one of the two when \<open>y\<close> is half way.\<close>

definition round_half_even :: "real \<Rightarrow> int" where
  "round_half_even y =
     (let f = \<lfloor>y\<rfloor>
      in if y - of_int f < 1 / 2 then f
         else if 1 / 2 < y - of_int f then f + 1
         else if even f then f else f + 1)"

text \<open>
  Rounding to 53 significant bits: with \<open>2 ^ k \<le> \<bar>x\<bar> < 2 ^ (k + 1)\<close> the doubles
  around \<open>x\<close> are the multiples of \<open>2 ^ (k - 52)\<close>, and of \<open>2 ^ - 1074\<close> when
  \<open>x\<close> is below the least normal double \<open>2 ^ - 1022\<close>.
\<close>

definition double :: "real \<Rightarrow> real" where
  "double x =
     (if x = 0 then 0
      else (let e = max (exponent \<bar>x\<bar>) (- 1022) - 52
            in of_int (round_half_even (x / 2 powi e)) * 2 powi e))"

text \<open>
  Notions for the proofs: the factors \<open>1 - 2 ^ - 53\<close> and \<open>1 + 2 ^ - 53\<close> between
  which one rounding keeps a number.
\<close>

definition lo :: real where
  "lo = 1 - 1 / 2 ^ 53"

definition hi :: real where
  "hi = 1 + 1 / 2 ^ 53"

section \<open>Cost\<close>

text \<open>
  GitHub Actions pricing per minute (\<^verbatim>\<open>COST_PER_MINUTE\<close>), as the decimal
  literals of the table; the number that a literal denotes at run time is its
  \<open>double\<close>.
\<close>

fun COST_PER_MINUTE :: "OSType \<Rightarrow> real" where
  "COST_PER_MINUTE Linux = 0.008"
| "COST_PER_MINUTE Windows = 0.016"
| "COST_PER_MINUTE Macos = 0.08"
| "COST_PER_MINUTE Unknown = 0.008"

text \<open>
  Estimate cost based on GitHub.com pricing. \<^verbatim>\<open>Object.entries(billing.byOS)\<close>
  lists the four keys in the order of the object literal. The product
  \<^verbatim>\<open>data.minutes * COST_PER_MINUTE[os]\<close> and the sum
  \<^verbatim>\<open>totalCost += ...\<close> are operations on doubles, each rounded. The
  minutes are finite doubles; the four rates add up to 0.112, so that no product and
  no partial sum exceeds the largest double.
\<close>

definition estimateCost :: "AggregatedBilling \<Rightarrow> real" where
  "estimateCost billing =
     fold (\<lambda>os_type totalCost.
             double (totalCost + double (minutes (byOS billing os_type) * double (COST_PER_MINUTE os_type))))
       [Linux, Windows, Macos, Unknown] 0"

text \<open>
  The cost as the specification words it: the sum over the OS categories of the
  minutes times the fixed cost per minute, in exact arithmetic.
\<close>

definition spec_estimateCost :: "AggregatedBilling \<Rightarrow> real" where
  "spec_estimateCost billing =
     (\<Sum>os_type \<leftarrow> [Linux, Windows, Macos, Unknown].
        minutes (byOS billing os_type) * COST_PER_MINUTE os_type)"

section \<open>Cache store\<close>

text \<open>
  What the cache takes from the runtime: the home directory and the MD5 digest. A file
  of the cache directory holds JSON text; the model keeps the value that
  \<^verbatim>\<open>JSON.parse\<close> makes of it, a cache entry, or \<open>Garbage\<close> for text that
  \<^verbatim>\<open>JSON.parse\<close> rejects. Data is JSON-serializable: writing it with
  \<^verbatim>\<open>JSON.stringify\<close> and parsing it back gives an equal value. The file system
  can refuse to be modified (\<open>read_only\<close>); then \<^verbatim>\<open>mkdirSync\<close>,
  \<^verbatim>\<open>writeFileSync\<close> and \<^verbatim>\<open>unlinkSync\<close> throw.
\<close>

record Runtime =
  homedir :: string
  md5 :: "string \<Rightarrow> string"
  Date_getTime :: clock
  Date_toISOString :: "int \<Rightarrow> string"

record 'a CacheEntry =
  version :: string
  timestamp :: int
  ttlMs :: int
  data :: 'a

datatype 'a content = Json "'a CacheEntry" | Garbage

record 'a filesystem =
  directories :: "string set"
  files :: "string \<rightharpoonup> 'a content"
  read_only :: bool

datatype fs_error = EACCES | ENOENT | JsonSyntaxError

definition CACHE_DIR :: "Runtime \<Rightarrow> string" where
  "CACHE_DIR rt = homedir rt @ ''/'' @ ''.gh-forecast-cache''"

definition CACHE_VERSION :: string where
  "CACHE_VERSION = ''1''"

definition DEFAULT_TTL_MS :: int where
  "DEFAULT_TTL_MS = 1000 * 60 * 60"

definition existsSync :: "'a filesystem \<Rightarrow> string \<Rightarrow> bool" where
  "existsSync fs path = (path \<in> directories fs \<or> files fs path \<noteq> None)"

definition mkdirSync :: "'a filesystem \<Rightarrow> string \<Rightarrow> fs_error + 'a filesystem" where
  "mkdirSync fs path =
     (if read_only fs then Inl EACCES else Inr (fs\<lparr>directories := insert path (directories fs)\<rparr>))"

definition readFileSync :: "'a filesystem \<Rightarrow> string \<Rightarrow> fs_error + 'a content" where
  "readFileSync fs path = (case files fs path of None \<Rightarrow> Inl ENOENT | Some c \<Rightarrow> Inr c)"

definition writeFileSync :: "'a filesystem \<Rightarrow> string \<Rightarrow> 'a content \<Rightarrow> fs_error + 'a filesystem" where
  "writeFileSync fs path c =
     (if read_only fs then Inl EACCES else Inr (fs\<lparr>files := (files fs)(path \<mapsto> c)\<rparr>))"

definition unlinkSync :: "'a filesystem \<Rightarrow> string \<Rightarrow> fs_error + 'a filesystem" where
  "unlinkSync fs path =
     (if read_only fs then Inl EACCES
      else if files fs path = None then Inl ENOENT
      else Inr (fs\<lparr>files := (files fs)(path := None)\<rparr>))"

definition JSON_parse :: "'a content \<Rightarrow> fs_error + 'a CacheEntry" where
  "JSON_parse c = (case c of Garbage \<Rightarrow> Inl JsonSyntaxError | Json e \<Rightarrow> Inr e)"

definition ensureCacheDir :: "Runtime \<Rightarrow> 'a filesystem \<Rightarrow> fs_error + 'a filesystem" where
  "ensureCacheDir rt fs =
     (if \<not> existsSync fs (CACHE_DIR rt) then mkdirSync fs (CACHE_DIR rt) else Inr fs)"

definition getCacheKey :: "Runtime \<Rightarrow> string list \<Rightarrow> string" where
  "getCacheKey rt parts = md5 rt (join_str ''|'' parts)"

definition getCachePath :: "Runtime \<Rightarrow> string \<Rightarrow> string" where
  "getCachePath rt key = CACHE_DIR rt @ ''/'' @ key @ ''.json''"

text \<open>The file that holds the entry of a key.\<close>

definition cache_file :: "Runtime \<Rightarrow> string list \<Rightarrow> string" where
  "cache_file rt keyParts = getCachePath rt (getCacheKey rt keyParts)"

text \<open>
  Get cached data if available and not expired. \<open>now\<close> is \<^verbatim>\<open>Date.now()\<close>.
  Every exception ends in the \<^verbatim>\<open>catch\<close> that returns \<^verbatim>\<open>null\<close>; what
  was done to the file system before it stays done. The result is the value returned
  and the file system left behind.
\<close>

definition getCache ::
  "Runtime \<Rightarrow> int \<Rightarrow> 'a filesystem \<Rightarrow> string list \<Rightarrow> int \<Rightarrow> 'a option \<times> 'a filesystem" where
  "getCache rt now fs keyParts ttl =
     (case ensureCacheDir rt fs of
        Inl e \<Rightarrow> (None, fs)
      | Inr fs1 \<Rightarrow>
          (let key = getCacheKey rt keyParts;
               cachePath = getCachePath rt key
           in if \<not> existsSync fs1 cachePath then (None, fs1)
              else
                (case readFileSync fs1 cachePath of
                   Inl e \<Rightarrow> (None, fs1)
                 | Inr raw \<Rightarrow>
                     (case JSON_parse raw of
                        Inl e \<Rightarrow> (None, fs1)
                      | Inr entry \<Rightarrow>
                          if version entry \<noteq> CACHE_VERSION then
                            (case unlinkSync fs1 cachePath of
                               Inl e \<Rightarrow> (None, fs1)
                             | Inr fs2 \<Rightarrow> (None, fs2))
                          else
                            (let age = now - timestamp entry
                             in if age > ttl then
                                  (case unlinkSync fs1 cachePath of
                                     Inl e \<Rightarrow> (None, fs1)
                                   | Inr fs2 \<Rightarrow> (None, fs2))
                                else (Some (data entry), fs1))))))"

text \<open>Save data to cache. Silently fails: the cache is optional.\<close>

definition setCache ::
  "Runtime \<Rightarrow> int \<Rightarrow> 'a filesystem \<Rightarrow> string list \<Rightarrow> 'a \<Rightarrow> int \<Rightarrow> 'a filesystem" where
  "setCache rt now fs keyParts d ttl =
     (case ensureCacheDir rt fs of
        Inl e \<Rightarrow> fs
      | Inr fs1 \<Rightarrow>
          (let key = getCacheKey rt keyParts;
               cachePath = getCachePath rt key;
               entry = \<lparr>version = CACHE_VERSION, timestamp = now, ttlMs = ttl, data = d\<rparr>
           in case writeFileSync fs1 cachePath (Json entry) of
                Inl e \<Rightarrow> fs1
              | Inr fs2 \<Rightarrow> fs2))"

section \<open>Fetching runs and jobs\<close>

record Repository =
  name :: string
  full_name :: string
  owner :: string

record RunRepository =
  name :: string
  full_name :: string

record WorkflowRun =
  id' :: int
  name :: "string option"
  status :: "string option"
  conclusion :: "string option"
  created_at :: string
  run_started_at :: "string option"
  repository :: RunRepository

text \<open>
  What \<^verbatim>\<open>octokit.paginate.iterator\<close> delivers to a \<^verbatim>\<open>for await\<close> loop: pages
  of items, until the listing is done or a request fails and the iterator throws.
\<close>

datatype api_error = HttpError nat | RequestError

datatype 'a pages = Done | Page "'a list" "'a pages" | Throw api_error

text \<open>A listing fails: the iterator throws after some pages.\<close>

fun throws :: "'a pages \<Rightarrow> bool" where
  "throws Done = False"
| "throws (Throw e) = True"
| "throws (Page response rest) = throws rest"

text \<open>
  The two endpoints, as functions of the parameters that vary (\<^verbatim>\<open>owner\<close>,
  \<^verbatim>\<open>repo\<close>, and \<^verbatim>\<open>run_id\<close> or \<^verbatim>\<open>created\<close>). The answer to a request does
  not depend on when it is made.
\<close>

record Octokit =
  listWorkflowRunsForRepo :: "string \<Rightarrow> string \<Rightarrow> string \<Rightarrow> WorkflowRun pages"
  listJobsForWorkflowRun :: "string \<Rightarrow> string option \<Rightarrow> int \<Rightarrow> WorkflowJob pages"

definition DEFAULT_CACHE_TTL :: int where
  "DEFAULT_CACHE_TTL = 1000 * 60 * 30"

text \<open>The object pushed for a run that passes the date check.\<close>

definition pick_run :: "WorkflowRun \<Rightarrow> WorkflowRun" where
  "pick_run run =
     \<lparr>WorkflowRun.id' = WorkflowRun.id' run,
      WorkflowRun.name = WorkflowRun.name run,
      WorkflowRun.status = WorkflowRun.status run,
      WorkflowRun.conclusion = WorkflowRun.conclusion run,
      created_at = created_at run,
      run_started_at = run_started_at run,
      repository =
        \<lparr>RunRepository.name = RunRepository.name (repository run),
         RunRepository.full_name = RunRepository.full_name (repository run)\<rparr>\<rparr>"

text \<open>The body of the \<^verbatim>\<open>try\<close> block of \<open>listWorkflowRuns\<close>.\<close>

fun runs_pages ::
  "clock \<Rightarrow> int \<Rightarrow> int \<Rightarrow> WorkflowRun pages \<Rightarrow> WorkflowRun list \<Rightarrow> api_error + WorkflowRun list" where
  "runs_pages clk since until Done runs = Inr runs"
| "runs_pages clk since until (Throw e) runs = Inl e"
| "runs_pages clk since until (Page response rest) runs =
     runs_pages clk since until rest
       (runs @ map pick_run
          (filter (\<lambda>run. since \<le> clk (created_at run) \<and> clk (created_at run) \<le> until) response))"

text \<open>
  List workflow runs for a repository within a date range. \<open>since\<close> and \<open>until\<close>
  are valid dates, given by their time values; \<open>created_range\<close> is the
  \<^verbatim>\<open>created\<close> parameter of the request, \<^verbatim>\<open>`${sinceISO}..${untilISO}`\<close>.
\<close>

definition created_range :: "Runtime \<Rightarrow> int \<Rightarrow> int \<Rightarrow> string" where
  "created_range rt since until =
     (let sinceISO = hd (split_str (CHR ''T'') (Date_toISOString rt since));
          untilISO = hd (split_str (CHR ''T'') (Date_toISOString rt until))
      in sinceISO @ ''..'' @ untilISO)"

definition listWorkflowRuns ::
  "Runtime \<Rightarrow> Octokit \<Rightarrow> string \<Rightarrow> string \<Rightarrow> int \<Rightarrow> int \<Rightarrow> WorkflowRun list" where
  "listWorkflowRuns rt octokit own repo since until =
     (case runs_pages (Date_getTime rt) since until
             (listWorkflowRunsForRepo octokit own repo (created_range rt since until)) [] of
        Inl e \<Rightarrow> []
      | Inr runs \<Rightarrow> runs)"

text \<open>The object pushed for a job whose \<^verbatim>\<open>completed_at\<close> is truthy.\<close>

definition pick_job :: "WorkflowJob \<Rightarrow> WorkflowJob" where
  "pick_job j =
     \<lparr>WorkflowJob.id' = WorkflowJob.id' j,
      run_id = run_id j,
      WorkflowJob.name = WorkflowJob.name j,
      WorkflowJob.status = WorkflowJob.status j,
      WorkflowJob.conclusion = WorkflowJob.conclusion j,
      started_at = started_at j,
      completed_at = completed_at j,
      labels = labels j,
      runner_name = runner_name j,
      runner_group_name = runner_group_name j\<rparr>"

text \<open>The body of the \<^verbatim>\<open>try\<close> block of \<open>listRunJobs\<close>.\<close>

fun jobs_pages :: "WorkflowJob pages \<Rightarrow> WorkflowJob list \<Rightarrow> api_error + WorkflowJob list" where
  "jobs_pages Done js = Inr js"
| "jobs_pages (Throw e) js = Inl e"
| "jobs_pages (Page response rest) js =
     jobs_pages rest (js @ map pick_job (filter (\<lambda>j. truthy (completed_at j)) response))"

text \<open>List jobs for a specific workflow run.\<close>

definition listRunJobs :: "Octokit \<Rightarrow> string \<Rightarrow> string option \<Rightarrow> int \<Rightarrow> WorkflowJob list" where
  "listRunJobs octokit own repo runId =
     (case jobs_pages (listJobsForWorkflowRun octokit own repo runId) [] of
        Inl e \<Rightarrow> []
      | Inr js \<Rightarrow> js)"

text \<open>
  \<^verbatim>\<open>String(n)\<close> for an integer, and the order of \<^verbatim>\<open>Array.prototype.sort\<close>
  without a comparator: by the elements' strings, code unit by code unit.
\<close>

fun digits :: "nat \<Rightarrow> string" where
  "digits n = (if n < 10 then [''0123456789'' ! n] else digits (n div 10) @ [''0123456789'' ! (n mod 10)])"

definition Number_toString :: "int \<Rightarrow> string" where
  "Number_toString i = (if i < 0 then ''-'' @ digits (nat (- i)) else digits (nat i))"

fun string_less :: "string \<Rightarrow> string \<Rightarrow> bool" where
  "string_less [] [] = False"
| "string_less [] (d # ds) = True"
| "string_less (c # cs) [] = False"
| "string_less (c # cs) (d # ds) =
     ((of_char c :: nat) < of_char d \<or> (c = d \<and> string_less cs ds))"

fun insert_sorted :: "string \<Rightarrow> string list \<Rightarrow> string list" where
  "insert_sorted x [] = [x]"
| "insert_sorted x (y # ys) = (if string_less y x then y # insert_sorted x ys else x # y # ys)"

definition sort_strings :: "string list \<Rightarrow> string list" where
  "sort_strings xs = foldr insert_sorted xs []"

definition sort_default :: "int list \<Rightarrow> string list" where
  "sort_default xs = sort_strings (map Number_toString xs)"

text \<open>
  The task that \<open>fetchAllJobs\<close> runs for one workflow run. The destructuring
  \<^verbatim>\<open>const [owner, repo] = full_name.split('/')\<close> leaves \<^verbatim>\<open>repo\<close> undefined
  when the name has no slash.
\<close>

definition denormalize :: "WorkflowRun \<Rightarrow> WorkflowJob \<Rightarrow> JobWithRepo" where
  "denormalize run j =
     \<lparr>WorkflowJob.id' = WorkflowJob.id' j,
      run_id = run_id j,
      WorkflowJob.name = WorkflowJob.name j,
      WorkflowJob.status = WorkflowJob.status j,
      WorkflowJob.conclusion = WorkflowJob.conclusion j,
      started_at = started_at j,
      completed_at = completed_at j,
      labels = labels j,
      runner_name = runner_name j,
      runner_group_name = runner_group_name j,
      repo_full_name = RunRepository.full_name (repository run),
      workflow_name = WorkflowRun.name run\<rparr>"

definition run_task :: "Octokit \<Rightarrow> WorkflowRun \<Rightarrow> JobWithRepo list" where
  "run_task octokit run =
     (let parts = split_str (CHR ''/'') (RunRepository.full_name (repository run));
          own = hd parts;
          repo = (case tl parts of [] \<Rightarrow> None | r # _ \<Rightarrow> Some r);
          js = listRunJobs octokit own repo (WorkflowRun.id' run)
      in map (denormalize run) js)"

datatype fetch_error = TypeError

text \<open>
  Fetch all jobs for multiple workflow runs with concurrency control.
  \<^verbatim>\<open>pLimit(concurrency)\<close> throws unless the limit is at least 1. It bounds how many
  tasks are in flight; \<^verbatim>\<open>Promise.all\<close> gives their results in the order of
  \<open>runs\<close> whatever the order of completion, and no task rejects, so the jobs are
  the concatenation of the tasks' results. The progress callback is not modelled.
  \<open>now1\<close> and \<open>now2\<close> are the clock readings at the cache lookup and at the cache
  write.
\<close>

definition jobs_cacheKey :: "WorkflowRun list \<Rightarrow> string list" where
  "jobs_cacheKey runs = [''jobs'', join_str '','' (sort_default (map WorkflowRun.id' runs))]"

definition fetchAllJobs ::
  "Runtime \<Rightarrow> Octokit \<Rightarrow> WorkflowRun list \<Rightarrow> nat \<Rightarrow> bool \<Rightarrow> int \<Rightarrow> int \<Rightarrow> int
     \<Rightarrow> JobWithRepo list filesystem \<Rightarrow> (fetch_error + JobWithRepo list) \<times> JobWithRepo list filesystem" where
  "fetchAllJobs rt octokit runs concurrency useCache cacheTtlMs now1 now2 fs =
     (let cacheKey = jobs_cacheKey runs;
          looked = (if useCache then getCache rt now1 fs cacheKey cacheTtlMs else (None, fs));
          fs1 = snd looked
      in case fst looked of
           Some cached \<Rightarrow> (Inr cached, fs1)
         | None \<Rightarrow>
             if concurrency < 1 then (Inl TypeError, fs1)
             else
               (let allJobs = concat (map (run_task octokit) runs);
                    fs2 = (if useCache then setCache rt now2 fs1 cacheKey allJobs cacheTtlMs else fs1)
                in (Inr allJobs, fs2)))"

text \<open>
  Fetch workflow runs for all repositories in an organization: the same scheme, with
  one task per repository.
\<close>

definition runs_cacheKey :: "Runtime \<Rightarrow> Repository list \<Rightarrow> int \<Rightarrow> int \<Rightarrow> string list" where
  "runs_cacheKey rt repos since until =
     [''runs'', join_str '','' (sort_strings (map Repository.full_name repos)),
      Date_toISOString rt since, Date_toISOString rt until]"

definition fetchOrgWorkflowRuns ::
  "Runtime \<Rightarrow> Octokit \<Rightarrow> Repository list \<Rightarrow> int \<Rightarrow> int \<Rightarrow> nat \<Rightarrow> bool \<Rightarrow> int \<Rightarrow> int \<Rightarrow> int
     \<Rightarrow> WorkflowRun list filesystem \<Rightarrow> (fetch_error + WorkflowRun list) \<times> WorkflowRun list filesystem" where
  "fetchOrgWorkflowRuns rt octokit repos since until concurrency useCache cacheTtlMs now1 now2 fs =
     (let cacheKey = runs_cacheKey rt repos since until;
          looked = (if useCache then getCache rt now1 fs cacheKey cacheTtlMs else (None, fs));
          fs1 = snd looked
      in case fst looked of
           Some cached \<Rightarrow> (Inr cached, fs1)
         | None \<Rightarrow>
             if concurrency < 1 then (Inl TypeError, fs1)
             else
               (let allRuns = concat (map (\<lambda>repo. listWorkflowRuns rt octokit (owner repo)
                                             (Repository.name repo) since until) repos);
                    fs2 = (if useCache then setCache rt now2 fs1 cacheKey allRuns cacheTtlMs else fs1)
                in (Inr allRuns, fs2)))"

text \<open>
  \<open>fetchAllJobs\<close> goes to the network: caching is off, or the lookup finds no fresh
  entry.
\<close>

definition fetches ::
  "Runtime \<Rightarrow> WorkflowRun list \<Rightarrow> bool \<Rightarrow> int \<Rightarrow> int \<Rightarrow> JobWithRepo list filesystem \<Rightarrow> bool" where
  "fetches rt runs useCache cacheTtlMs now1 fs =
     (if useCache then fst (getCache rt now1 fs (jobs_cacheKey runs) cacheTtlMs) = None else True)"

section \<open>Sample data\<close>

text \<open>
  A clock for the examples: the time values of a few ISO timestamps, as
  \<^verbatim>\<open>new Date(s).getTime()\<close> gives them.
\<close>

definition sample_clock :: clock where
  "sample_clock s =
     (case map_of
        [(''2024-01-01T00:00:00Z'', 1704067200000),
         (''2024-01-01T00:00:01Z'', 1704067201000),
         (''2024-01-01T00:01:00Z'', 1704067260000),
         (''2024-01-01T00:01:01Z'', 1704067261000),
         (''2024-01-02T09:30:00Z'', 1704187800000),
         (''2024-01-02T09:42:10Z'', 1704188530000)] s of
        Some t \<Rightarrow> t
      | None \<Rightarrow> 0)"

text \<open>The usage of the cost example: 100, 50, 10 and 0 minutes.\<close>

definition sample_billing :: AggregatedBilling where
  "sample_billing =
     initial_result
       \<lparr>byOS := (\<lambda>os_type.
          \<lparr>minutes = (case os_type of Linux \<Rightarrow> 100 | Windows \<Rightarrow> 50 | Macos \<Rightarrow> 10 | Unknown \<Rightarrow> 0),
           billableMinutes = (case os_type of Linux \<Rightarrow> 100 | Windows \<Rightarrow> 100 | Macos \<Rightarrow> 100 | Unknown \<Rightarrow> 0),
           Usage.jobCount = 1\<rparr>)\<rparr>"

text \<open>A runtime whose digest is the identity, an empty disk, and a disk with one entry.\<close>

definition sample_runtime :: Runtime where
  "sample_runtime =
     \<lparr>homedir = ''/home/runner'',
      md5 = (\<lambda>s. s),
      Date_getTime = sample_clock,
      Date_toISOString = (\<lambda>t. if t = 1704067200000 then ''2024-01-01T00:00:00.000Z'' else ''2024-01-02T09:30:00.000Z'')\<rparr>"

definition empty_fs :: "'a filesystem" where
  "empty_fs = \<lparr>directories = {}, files = Map.empty, read_only = False\<rparr>"

definition stale_fs :: "nat filesystem" where
  "stale_fs =
     \<lparr>directories = {CACHE_DIR sample_runtime},
      files = [cache_file sample_runtime [''repos'', ''octo''] \<mapsto>
                 Json \<lparr>version = CACHE_VERSION, timestamp = 0, ttlMs = 1000, data = 7\<rparr>],
      read_only = False\<rparr>"

text \<open>
  A run without a name, a finished job of it, and an API that lists that job and a
  running one for run 42 of octo/api, fails on the second page of every other run, and
  answers 404 for the runs of every other repository.
\<close>

definition sample_job :: WorkflowJob where
  "sample_job =
     \<lparr>WorkflowJob.id' = 501, run_id = 42, WorkflowJob.name = ''build'',
      WorkflowJob.status = ''completed'', WorkflowJob.conclusion = Some ''success'',
      started_at = ''2024-01-02T09:30:00Z'', completed_at = Some ''2024-01-02T09:42:10Z'',
      labels = [''ubuntu-latest''], runner_name = Some ''runner-1'', runner_group_name = None\<rparr>"

definition sample_run :: WorkflowRun where
  "sample_run =
     \<lparr>WorkflowRun.id' = 42, WorkflowRun.name = None, WorkflowRun.status = Some ''completed'',
      WorkflowRun.conclusion = Some ''success'', created_at = ''2024-01-02T09:30:00Z'',
      run_started_at = Some ''2024-01-02T09:30:00Z'',
      repository = \<lparr>RunRepository.name = ''api'', RunRepository.full_name = ''octo/api''\<rparr>\<rparr>"

definition sample_octokit :: Octokit where
  "sample_octokit =
     \<lparr>listWorkflowRunsForRepo = (\<lambda>own repo created.
        if own = ''octo'' \<and> repo = ''api'' then Page [sample_run] Done else Throw (HttpError 404)),
      listJobsForWorkflowRun = (\<lambda>own repo runId.
        if own = ''octo'' \<and> repo = Some ''api'' \<and> runId = 42
        then Page [sample_job, sample_job\<lparr>WorkflowJob.id' := 502, completed_at := None\<rparr>] Done
        else Page [sample_job] (Throw (HttpError 404)))\<rparr>"

text \<open>
  Jobs of the run above: a finished one on Ubuntu (12 min 10 s), a running one, a
  finished one on Windows (1 s), and one that ends 61 s before it starts.
\<close>

definition job_a :: JobWithRepo where
  "job_a =
     \<lparr>WorkflowJob.id' = 501, run_id = 42, WorkflowJob.name = ''build'',
      WorkflowJob.status = ''completed'', WorkflowJob.conclusion = Some ''success'',
      started_at = ''2024-01-02T09:30:00Z'', completed_at = Some ''2024-01-02T09:42:10Z'',
      labels = [''ubuntu-latest''], runner_name = Some ''runner-1'', runner_group_name = None,
      repo_full_name = ''octo/api'', workflow_name = None\<rparr>"

definition job_running :: JobWithRepo where
  "job_running = job_a\<lparr>WorkflowJob.id' := 502, completed_at := None\<rparr>"

definition job_windows :: JobWithRepo where
  "job_windows =
     job_a\<lparr>WorkflowJob.id' := 503, run_id := 43, labels := [''self-hosted'', ''Windows-2022''],
       started_at := ''2024-01-01T00:00:00Z'', completed_at := Some ''2024-01-01T00:00:01Z'',
       workflow_name := Some ''CI''\<rparr>"

definition job_backwards :: JobWithRepo where
  "job_backwards =
     job_a\<lparr>WorkflowJob.id' := 505, started_at := ''2024-01-01T00:01:01Z'',
       completed_at := Some ''2024-01-01T00:00:00Z''\<rparr>"

definition sample_jobs :: "JobWithRepo list" where
  "sample_jobs = [job_a, job_running, job_windows]"

section \<open>Durations round up\<close>

lemma ceiling_minutes: "\<lceil>real_of_int d / 1000 / 60\<rceil> = - ((- d) div 60000)"
proof -
  have "real_of_int d / 1000 / 60 = real_of_int d / real_of_int 60000"
    by simp
  then show ?thesis
    by (simp only: ceiling_divide_eq_div)
qed

lemma calculateDurationMinutes_div:
  "calculateDurationMinutes getTime startedAt completedAt =
     of_int (- ((getTime startedAt - getTime completedAt) div 60000))"
  unfolding calculateDurationMinutes_def Let_def
  by (simp only: ceiling_minutes minus_diff_eq)

text \<open>
  C2. For every pair of timestamps, \<open>calculateDurationMinutes\<close> is the ceiling of the
  elapsed milliseconds divided by 60000; a job that completes exactly one second after
  it starts lasts 1 minute (the duration is rounded up, not to the nearest minute).
\<close>

theorem calculateDurationMinutes_ceiling:
  "calculateDurationMinutes getTime startedAt completedAt =
     of_int \<lceil>real_of_int (getTime completedAt - getTime startedAt) / 60000\<rceil>
   \<and> (getTime completedAt = getTime startedAt + 1000 \<longrightarrow>
        calculateDurationMinutes getTime startedAt completedAt = 1)"
proof
  show "calculateDurationMinutes getTime startedAt completedAt =
     of_int \<lceil>real_of_int (getTime completedAt - getTime startedAt) / 60000\<rceil>"
    by (simp add: calculateDurationMinutes_def Let_def)
  show "getTime completedAt = getTime startedAt + 1000 \<longrightarrow>
        calculateDurationMinutes getTime startedAt completedAt = 1"
    by (simp add: calculateDurationMinutes_div)
qed

theorem calculateDurationMinutes_ceiling_witness:
  "sample_clock ''2024-01-01T00:00:01Z'' = sample_clock ''2024-01-01T00:00:00Z'' + 1000
   \<and> calculateDurationMinutes sample_clock ''2024-01-01T00:00:00Z'' ''2024-01-01T00:00:01Z'' = 1"
  using calculateDurationMinutes_ceiling
    [of sample_clock "''2024-01-01T00:00:00Z''" "''2024-01-01T00:00:01Z''"]
  by (simp add: sample_clock_def)

section \<open>Cost estimation\<close>

subsection \<open>Rounding to a double\<close>

lemma halvings_unique: "2 ^ n \<le> x \<Longrightarrow> x < 2 ^ Suc n \<Longrightarrow> halvings x = n"
proof (induction n arbitrary: x)
  case 0
  then show ?case by (simp add: halvings.simps)
next
  case (Suc n)
  have "(1::real) \<le> 2 ^ n" by simp
  moreover from Suc.prems(1) have "2 * 2 ^ n \<le> x" by simp
  ultimately have "2 \<le> x" by linarith
  moreover from Suc.prems have "halvings (x / 2) = n"
    by (intro Suc.IH) simp_all
  ultimately show ?case by (subst halvings.simps) simp
qed

lemma doublings_unique: "1 / 2 ^ n \<le> x \<Longrightarrow> x < 2 / 2 ^ n \<Longrightarrow> doublings x = n"
proof (induction n arbitrary: x)
  case 0
  then show ?case by (simp add: doublings.simps)
next
  case (Suc n)
  have p: "(0::real) < 1 / 2 ^ Suc n" by simp
  with Suc.prems(1) have x: "0 < x" by linarith
  have "(2::real) / 2 ^ Suc n = 1 / 2 ^ n" by simp
  also have "\<dots> \<le> 1" by (simp add: field_simps)
  finally have "(2::real) / 2 ^ Suc n \<le> 1" .
  with Suc.prems(2) have x1: "x < 1" by linarith
  from Suc.prems have "doublings (2 * x) = n"
    by (intro Suc.IH) (simp_all add: field_simps)
  with x x1 show ?case by (subst doublings.simps) simp
qed

lemma exponent_unique:
  assumes "2 powi k \<le> x" and "x < 2 powi (k + 1)"
  shows "exponent x = k"
proof (cases "0 \<le> k")
  case True
  then obtain n where k: "k = int n" using nonneg_int_cases by blast
  from assms have a: "2 ^ n \<le> x" "x < 2 ^ Suc n"
    by (simp_all add: k power_int_add)
  then have "halvings x = n" by (rule halvings_unique)
  moreover have "(1::real) \<le> 2 ^ n" by simp
  with a(1) have "1 \<le> x" by linarith
  ultimately show ?thesis by (simp add: exponent_def k)
next
  case False
  then have "0 < nat (- k)" by simp
  then obtain n where n: "nat (- k) = Suc n" using gr0_implies_Suc by blast
  with False have k: "k = - int (Suc n)" by linarith
  have k1: "k + 1 = - int n" by (simp add: k)
  have e1: "(2::real) powi k = 1 / 2 ^ Suc n"
    unfolding k power_int_minus power_int_of_nat by (simp add: field_simps)
  have e2: "(2::real) powi (k + 1) = 2 / 2 ^ Suc n"
    unfolding k1 power_int_minus power_int_of_nat by (simp add: field_simps)
  from assms have a: "1 / 2 ^ Suc n \<le> x" "x < 2 / 2 ^ Suc n"
    unfolding e1 e2 by simp_all
  then have d: "doublings x = Suc n" by (rule doublings_unique)
  have "(2::real) / 2 ^ Suc n = 1 / 2 ^ n" by simp
  also have "\<dots> \<le> 1" by (simp add: field_simps)
  finally have "(2::real) / 2 ^ Suc n \<le> 1" .
  with a(2) have "x < 1" by linarith
  with d show ?thesis by (simp add: exponent_def k)
qed

text \<open>The double of a number whose binary exponent is known.\<close>

lemma double_eval:
  assumes "2 powi k \<le> \<bar>x\<bar>" and "\<bar>x\<bar> < 2 powi (k + 1)" and "- 1022 \<le> k"
  shows "double x = of_int (round_half_even (x * 2 powi (52 - k))) / 2 powi (52 - k)"
proof -
  have "(0::real) < 2 powi k" by simp
  have "x \<noteq> 0"
  proof
    assume "x = 0"
    with assms(1) have "2 powi k \<le> (0::real)" by simp
    with \<open>(0::real) < 2 powi k\<close> show False by linarith
  qed
  moreover from assms(1,2) have "exponent \<bar>x\<bar> = k" by (rule exponent_unique)
  moreover have "(2::real) powi (k - 52) = inverse (2 powi (52 - k))"
    using power_int_minus [of "2::real" "52 - k"] by simp
  ultimately show ?thesis
    using assms(3) by (simp add: double_def Let_def max_def divide_inverse)
qed

lemma double_0: "double 0 = 0"
  by (simp add: double_def)

text \<open>The three rates as doubles; none of them is a binary fraction.\<close>

lemma double_rates:
  "double 0.008 = 4611686018427388 / 2 ^ 59"
  "double 0.016 = 4611686018427388 / 2 ^ 58"
  "double 0.08 = 5764607523034235 / 2 ^ 56"
  using double_eval [of "- 7" "0.008"] double_eval [of "- 6" "0.016"] double_eval [of "- 4" "0.08"]
  by (simp_all add: round_half_even_def Let_def)

text \<open>
  The operations of \<^verbatim>\<open>estimateCost\<close> on 100, 50, 10 and 0 minutes: each product
  is the double 0.8, the sums are 0.8, 1.6 and 2.4000000000000004.
\<close>

lemma double_products:
  "double (100 * (4611686018427388 / 2 ^ 59)) = 7205759403792794 / 2 ^ 53"
  "double (50 * (4611686018427388 / 2 ^ 58)) = 7205759403792794 / 2 ^ 53"
  "double (10 * (5764607523034235 / 2 ^ 56)) = 7205759403792794 / 2 ^ 53"
  using double_eval [of "- 1" "100 * (4611686018427388 / 2 ^ 59)"]
    double_eval [of "- 1" "50 * (4611686018427388 / 2 ^ 58)"]
    double_eval [of "- 1" "10 * (5764607523034235 / 2 ^ 56)"]
  by (simp_all add: round_half_even_def Let_def)

lemma double_sums:
  "double (7205759403792794 / 2 ^ 53) = 7205759403792794 / 2 ^ 53"
  "double (7205759403792794 / 2 ^ 53 + 7205759403792794 / 2 ^ 53) = 7205759403792794 / 2 ^ 52"
  "double (7205759403792794 / 2 ^ 52 + 7205759403792794 / 2 ^ 53) = 5404319552844596 / 2 ^ 51"
  "double (5404319552844596 / 2 ^ 51) = 5404319552844596 / 2 ^ 51"
  using double_eval [of "- 1" "7205759403792794 / 2 ^ 53"]
    double_eval [of 0 "7205759403792794 / 2 ^ 53 + 7205759403792794 / 2 ^ 53"]
    double_eval [of 1 "7205759403792794 / 2 ^ 52 + 7205759403792794 / 2 ^ 53"]
    double_eval [of 1 "5404319552844596 / 2 ^ 51"]
  by (simp_all add: round_half_even_def Let_def)

lemma double_2_40: "double 2.40 = 5404319552844595 / 2 ^ 51"
  using double_eval [of 1 "2.40"]
  by (simp add: round_half_even_def Let_def)

text \<open>
  The operations of \<^verbatim>\<open>estimateCost\<close> on 13, 1, 0 and 0 minutes, and the
  product of 15 and the rate 0.008.
\<close>

lemma double_13_1:
  "double (13 * (4611686018427388 / 2 ^ 59)) = 7493989779944506 / 2 ^ 56"
  "double (4611686018427388 / 2 ^ 58) = 4611686018427388 / 2 ^ 58"
  "double (7493989779944506 / 2 ^ 56) = 7493989779944506 / 2 ^ 56"
  "double (7493989779944506 / 2 ^ 56 + 4611686018427388 / 2 ^ 58) = 8646911284551353 / 2 ^ 56"
  "double (8646911284551353 / 2 ^ 56) = 8646911284551353 / 2 ^ 56"
  "double (15 * (4611686018427388 / 2 ^ 59)) = 8646911284551352 / 2 ^ 56"
  using double_eval [of "- 4" "13 * (4611686018427388 / 2 ^ 59)"]
    double_eval [of "- 6" "4611686018427388 / 2 ^ 58"]
    double_eval [of "- 4" "7493989779944506 / 2 ^ 56"]
    double_eval [of "- 4" "7493989779944506 / 2 ^ 56 + 4611686018427388 / 2 ^ 58"]
    double_eval [of "- 4" "8646911284551353 / 2 ^ 56"]
    double_eval [of "- 4" "15 * (4611686018427388 / 2 ^ 59)"]
  by (simp_all add: round_half_even_def Let_def)

subsection \<open>The error of one rounding\<close>

lemma halvings_bounds: "1 \<le> x \<Longrightarrow> 2 ^ halvings x \<le> x \<and> x < 2 ^ Suc (halvings x)"
proof (induction x rule: halvings.induct)
  case (1 x)
  show ?case
  proof (cases "2 \<le> x")
    case True
    then have "1 \<le> x / 2" by simp
    from 1(1) [OF True this]
    have "2 ^ halvings (x / 2) \<le> x / 2" and "x / 2 < 2 ^ Suc (halvings (x / 2))" by simp_all
    moreover from True have "halvings x = Suc (halvings (x / 2))"
      by (subst halvings.simps) simp
    ultimately show ?thesis by (simp add: field_simps)
  next
    case False
    then have "halvings x = 0" by (subst halvings.simps) simp
    with False 1(2) show ?thesis by simp
  qed
qed

lemma doublings_bounds:
  "0 < x \<Longrightarrow> x < 1 \<Longrightarrow> 1 / 2 ^ doublings x \<le> x \<and> x < 2 / 2 ^ doublings x"
proof (induction x rule: doublings.induct)
  case (1 x)
  from 1(2,3) have s: "doublings x = Suc (doublings (2 * x))"
    by (subst doublings.simps) simp
  show ?case
  proof (cases "2 * x < 1")
    case True
    from 1(2,3) have "0 < x \<and> x < 1" by simp
    from 1(1) [OF this] 1(2) True
    have "1 / 2 ^ doublings (2 * x) \<le> 2 * x" and "2 * x < 2 / 2 ^ doublings (2 * x)" by simp_all
    then show ?thesis unfolding s by (simp add: field_simps)
  next
    case False
    then have "doublings (2 * x) = 0" by (subst doublings.simps) simp
    with False 1(3) show ?thesis unfolding s by simp
  qed
qed

lemma exponent_bounds:
  assumes "0 < x"
  shows "2 powi exponent x \<le> x \<and> x < 2 powi (exponent x + 1)"
proof (cases "1 \<le> x")
  case True
  from halvings_bounds [OF True] True show ?thesis
    by (simp add: exponent_def power_int_add)
next
  case False
  then have x1: "x < 1" by simp
  from assms x1 have "doublings x = Suc (doublings (2 * x))"
    by (subst doublings.simps) simp
  then obtain n where n: "doublings x = Suc n" by blast
  have e: "exponent x = - int (Suc n)" using False by (simp add: exponent_def n)
  have k1: "- int (Suc n) + 1 = - int n" by simp
  have e1: "(2::real) powi (- int (Suc n)) = 1 / 2 ^ Suc n"
    unfolding power_int_minus power_int_of_nat by (simp add: field_simps)
  have e2: "(2::real) powi (- int (Suc n) + 1) = 2 / 2 ^ Suc n"
    unfolding k1 power_int_minus power_int_of_nat by (simp add: field_simps)
  from doublings_bounds [OF assms x1] show ?thesis
    unfolding e e1 e2 n by simp
qed

lemma round_half_even_error: "\<bar>of_int (round_half_even y) - y\<bar> \<le> 1 / 2"
proof -
  have "of_int \<lfloor>y\<rfloor> \<le> y" and "y < of_int \<lfloor>y\<rfloor> + 1" by linarith+
  then show ?thesis
    by (auto simp: round_half_even_def Let_def)
qed

text \<open>A number in the range of the normal doubles is rounded with a relative error of at most \<open>2 ^ - 53\<close>.\<close>

lemma double_error:
  assumes "x = 0 \<or> 2 powi (- 1022) \<le> \<bar>x\<bar>"
  shows "\<bar>double x - x\<bar> \<le> \<bar>x\<bar> / 2 ^ 53"
proof (cases "x = 0")
  case True
  then show ?thesis by (simp add: double_def)
next
  case False
  with assms have n: "2 powi (- 1022) \<le> \<bar>x\<bar>" by simp
  define k where "k = exponent \<bar>x\<bar>"
  from False have "0 < \<bar>x\<bar>" by simp
  from exponent_bounds [OF this]
  have b: "2 powi k \<le> \<bar>x\<bar>" "\<bar>x\<bar> < 2 powi (k + 1)" by (simp_all add: k_def)
  have k: "- 1022 \<le> k"
  proof (rule ccontr)
    assume "\<not> - 1022 \<le> k"
    then have "k + 1 \<le> - 1022" by simp
    then have "(2::real) powi (k + 1) \<le> 2 powi (- 1022)"
      by (intro power_int_increasing) simp_all
    with b(2) n show False by linarith
  qed
  define q :: real where "q = 2 powi (k - 52)"
  have q: "0 < q" by (simp add: q_def)
  have q2: "q / 2 = 2 powi k / 2 ^ 53"
    unfolding q_def by (simp add: power_int_diff)
  define y where "y = x / q"
  from q have x: "x = y * q" by (simp add: y_def)
  from k False have d: "double x = of_int (round_half_even y) * q"
    by (simp add: double_def Let_def k_def [symmetric] max_def q_def y_def)
  have "double x - x = of_int (round_half_even y) * q - y * q"
    by (simp only: d x [symmetric])
  also have "\<dots> = (of_int (round_half_even y) - y) * q"
    by (simp only: left_diff_distrib)
  finally have "\<bar>double x - x\<bar> = \<bar>of_int (round_half_even y) - y\<bar> * q"
    using q by (simp add: abs_mult)
  also have "\<dots> \<le> 1 / 2 * q"
    using q round_half_even_error [of y] by (intro mult_right_mono) simp_all
  also have "\<dots> = 2 powi k / 2 ^ 53" using q2 by simp
  also have "\<dots> \<le> \<bar>x\<bar> / 2 ^ 53" using b(1) by (simp add: divide_right_mono)
  finally show ?thesis .
qed

lemma min_normal_le: "(2::real) powi (- 1022) \<le> 1 / 512"
proof -
  have "(2::real) powi (- 1022) \<le> 2 powi (- 9)"
    by (intro power_int_increasing) simp_all
  then show ?thesis by simp
qed

lemma double_interval:
  assumes "x = 0 \<or> 1 / 512 \<le> x"
  shows "lo * x \<le> double x \<and> double x \<le> hi * x"
proof -
  from assms have x: "0 \<le> x" by auto
  from assms min_normal_le have "x = 0 \<or> 2 powi (- 1022) \<le> \<bar>x\<bar>" by auto
  from double_error [OF this] x have "\<bar>double x - x\<bar> \<le> x / 2 ^ 53" by simp
  moreover have "lo * x = x - x / 2 ^ 53" and "hi * x = x + x / 2 ^ 53"
    by (simp_all add: lo_def hi_def algebra_simps)
  ultimately show ?thesis by linarith
qed

lemma lo_hi: "0 \<le> lo" "lo \<le> 1" "1 \<le> hi" "0 \<le> hi"
  by (simp_all add: lo_def hi_def)

lemma lo_8: "1 / 2 \<le> lo ^ 8"
proof -
  have "1 + real 8 * (- (1 / 2 ^ 53)) \<le> (1 + - (1 / 2 ^ 53)) ^ 8"
    by (rule Bernoulli_inequality) simp
  then show ?thesis by (simp add: lo_def)
qed

text \<open>
  One more rounding of a number that \<open>k\<close> roundings keep between \<open>lo ^ k * a\<close> and
  \<open>hi ^ k * a\<close>, where \<open>a\<close> is zero or at least the least rate.
\<close>

lemma round_step:
  assumes a: "a = 0 \<or> 1 / 125 \<le> a" and l: "lo ^ k * a \<le> x" and h: "x \<le> hi ^ k * a" and k: "k \<le> 8"
  shows "lo ^ Suc k * a \<le> double x \<and> double x \<le> hi ^ Suc k * a"
proof (cases "a = 0")
  case True
  with l h have "x = 0" by simp
  with True show ?thesis by (simp add: double_def)
next
  case False
  with a have a': "1 / 125 \<le> a" by simp
  from k have "lo ^ 8 \<le> lo ^ k" using lo_hi by (intro power_decreasing) simp_all
  with lo_8 have "1 / 2 \<le> lo ^ k" by linarith
  with a' have "1 / 2 * (1 / 125) \<le> lo ^ k * a" by (intro mult_mono) simp_all
  with l have "1 / 512 \<le> x" by simp
  then have "x = 0 \<or> 1 / 512 \<le> x" by simp
  from double_interval [OF this] have d: "lo * x \<le> double x" "double x \<le> hi * x" by simp_all
  from l lo_hi have "lo * (lo ^ k * a) \<le> lo * x" by (intro mult_left_mono) simp_all
  moreover from h lo_hi have "hi * x \<le> hi * (hi ^ k * a)" by (intro mult_left_mono) simp_all
  ultimately show ?thesis using d by (simp add: mult.assoc)
qed

lemma product_step:
  assumes m: "m = 0 \<or> 1 \<le> m" and r: "1 / 125 \<le> r"
  shows "lo ^ 2 * (m * r) \<le> double (m * double r) \<and> double (m * double r) \<le> hi ^ 2 * (m * r)"
proof -
  from r have "r = 0 \<or> 1 / 512 \<le> r" by simp
  from double_interval [OF this] have c: "lo * r \<le> double r" "double r \<le> hi * r" by simp_all
  from m have m0: "0 \<le> m" by auto
  from c m0 have "m * (lo * r) \<le> m * double r" "m * double r \<le> m * (hi * r)"
    by (simp_all add: mult_left_mono)
  then have 1: "lo ^ 1 * (m * r) \<le> m * double r" "m * double r \<le> hi ^ 1 * (m * r)"
    by (simp_all add: mult_ac)
  have "m * r = 0 \<or> 1 / 125 \<le> m * r"
  proof (cases "m = 0")
    case True
    then show ?thesis by simp
  next
    case False
    with m have "1 \<le> m" by simp
    with r have "1 * (1 / 125) \<le> m * r" by (intro mult_mono) simp_all
    then show ?thesis by simp
  qed
  from round_step [OF this 1] show ?thesis by (simp add: numeral_2_eq_2)
qed

lemma add_step:
  assumes a: "a = 0 \<or> 1 / 125 \<le> a" and t: "t = 0 \<or> 1 / 125 \<le> t"
    and s: "lo ^ k * a \<le> s" "s \<le> hi ^ k * a"
    and p: "lo ^ 2 * t \<le> p" "p \<le> hi ^ 2 * t"
    and k: "2 \<le> k" "k \<le> 8"
  shows "lo ^ Suc k * (a + t) \<le> double (s + p) \<and> double (s + p) \<le> hi ^ Suc k * (a + t)"
proof -
  from t have t0: "0 \<le> t" by auto
  from k have "lo ^ k \<le> lo ^ 2" using lo_hi by (intro power_decreasing) simp_all
  with t0 have "lo ^ k * t \<le> lo ^ 2 * t" by (simp add: mult_right_mono)
  with p(1) have 1: "lo ^ k * t \<le> p" by linarith
  from k have "hi ^ 2 \<le> hi ^ k" using lo_hi by (intro power_increasing) simp_all
  with t0 have "hi ^ 2 * t \<le> hi ^ k * t" by (simp add: mult_right_mono)
  with p(2) have 2: "p \<le> hi ^ k * t" by linarith
  from s 1 2 have b: "lo ^ k * (a + t) \<le> s + p" "s + p \<le> hi ^ k * (a + t)"
    by (simp_all add: distrib_left)
  from a t have "a + t = 0 \<or> 1 / 125 \<le> a + t" by auto
  from round_step [OF this b k(2)] show ?thesis .
qed

subsection \<open>The estimated cost\<close>

lemma estimateCost_unfold:
  "estimateCost b =
     double (double (double (double (0 + double (minutes (byOS b Linux) * double 0.008))
                               + double (minutes (byOS b Windows) * double 0.016))
                       + double (minutes (byOS b Macos) * double 0.08))
               + double (minutes (byOS b Unknown) * double 0.008))"
  by (simp add: estimateCost_def)

lemma spec_estimateCost_unfold:
  "spec_estimateCost b =
     minutes (byOS b Linux) * 0.008 + minutes (byOS b Windows) * 0.016
       + minutes (byOS b Macos) * 0.08 + minutes (byOS b Unknown) * 0.008"
  by (simp add: spec_estimateCost_def)

lemma estimateCost_100_50_10_0:
  assumes "minutes (byOS b Linux) = 100" and "minutes (byOS b Windows) = 50"
    and "minutes (byOS b Macos) = 10" and "minutes (byOS b Unknown) = 0"
  shows "estimateCost b = 5404319552844596 / 2 ^ 51"
  by (simp only: estimateCost_unfold assms double_rates double_products
      mult_zero_left add_0_left add_0_right double_0 double_sums)

lemma estimateCost_13_1_0_0:
  assumes "minutes (byOS b Linux) = 13" and "minutes (byOS b Windows) = 1"
    and "minutes (byOS b Macos) = 0" and "minutes (byOS b Unknown) = 0"
  shows "estimateCost b = 8646911284551353 / 2 ^ 56"
  by (simp only: estimateCost_unfold assms double_rates double_13_1
      mult_zero_left mult_1 add_0_left add_0_right double_0)

text \<open>
  With whole numbers of minutes, none negative, the six roundings on the way of each
  term keep the estimated cost within a relative error of \<open>2 ^ - 50\<close> of the exact sum.
\<close>

lemma estimateCost_error:
  assumes m: "\<And>t. minutes (byOS b t) = 0 \<or> 1 \<le> minutes (byOS b t)"
  shows "\<bar>estimateCost b - spec_estimateCost b\<bar> \<le> spec_estimateCost b / 2 ^ 50"
proof -
  let ?a = "minutes (byOS b Linux)" and ?b = "minutes (byOS b Windows)"
  let ?c = "minutes (byOS b Macos)" and ?d = "minutes (byOS b Unknown)"
  let ?ta = "?a * 0.008" and ?tb = "?b * 0.016" and ?tc = "?c * 0.08" and ?td = "?d * 0.008"
  let ?pa = "double (?a * double 0.008)" and ?pb = "double (?b * double 0.016)"
  let ?pc = "double (?c * double 0.08)" and ?pd = "double (?d * double 0.008)"
  have ta: "?ta = 0 \<or> 1 / 125 \<le> ?ta" using m [of Linux] by auto
  have tb: "?tb = 0 \<or> 1 / 125 \<le> ?tb" using m [of Windows] by auto
  have tc: "?tc = 0 \<or> 1 / 125 \<le> ?tc" using m [of Macos] by auto
  have td: "?td = 0 \<or> 1 / 125 \<le> ?td" using m [of Unknown] by auto
  have pa: "lo ^ 2 * ?ta \<le> ?pa" "?pa \<le> hi ^ 2 * ?ta"
    using product_step [OF m [of Linux], of "0.008"] by simp_all
  have pb: "lo ^ 2 * ?tb \<le> ?pb" "?pb \<le> hi ^ 2 * ?tb"
    using product_step [OF m [of Windows], of "0.016"] by simp_all
  have pc: "lo ^ 2 * ?tc \<le> ?pc" "?pc \<le> hi ^ 2 * ?tc"
    using product_step [OF m [of Macos], of "0.08"] by simp_all
  have pd: "lo ^ 2 * ?td \<le> ?pd" "?pd \<le> hi ^ 2 * ?td"
    using product_step [OF m [of Unknown], of "0.008"] by simp_all
  have z: "(0::real) = 0 \<or> 1 / 125 \<le> (0::real)" by simp
  have s0: "lo ^ 2 * 0 \<le> (0::real)" "(0::real) \<le> hi ^ 2 * 0" by simp_all
  from add_step [OF z ta s0 pa]
  have s1: "lo ^ 3 * (0 + ?ta) \<le> double (0 + ?pa)" "double (0 + ?pa) \<le> hi ^ 3 * (0 + ?ta)"
    by (simp_all add: eval_nat_numeral)
  have a1: "0 + ?ta = 0 \<or> 1 / 125 \<le> 0 + ?ta" using ta by simp
  from add_step [OF a1 tb s1 pb]
  have s2: "lo ^ 4 * (0 + ?ta + ?tb) \<le> double (double (0 + ?pa) + ?pb)"
    "double (double (0 + ?pa) + ?pb) \<le> hi ^ 4 * (0 + ?ta + ?tb)"
    by (simp_all add: eval_nat_numeral)
  have a2: "0 + ?ta + ?tb = 0 \<or> 1 / 125 \<le> 0 + ?ta + ?tb" using ta tb by auto
  from add_step [OF a2 tc s2 pc]
  have s3: "lo ^ 5 * (0 + ?ta + ?tb + ?tc) \<le> double (double (double (0 + ?pa) + ?pb) + ?pc)"
    "double (double (double (0 + ?pa) + ?pb) + ?pc) \<le> hi ^ 5 * (0 + ?ta + ?tb + ?tc)"
    by (simp_all add: eval_nat_numeral)
  have a3: "0 + ?ta + ?tb + ?tc = 0 \<or> 1 / 125 \<le> 0 + ?ta + ?tb + ?tc" using ta tb tc by auto
  from add_step [OF a3 td s3 pd]
  have s4: "lo ^ 6 * (0 + ?ta + ?tb + ?tc + ?td) \<le> estimateCost b"
    "estimateCost b \<le> hi ^ 6 * (0 + ?ta + ?tb + ?tc + ?td)"
    by (simp_all add: eval_nat_numeral estimateCost_unfold)
  define S where "S = spec_estimateCost b"
  have S': "S = ?ta + ?tb + ?tc + ?td" by (simp add: S_def spec_estimateCost_unfold)
  have S: "0 \<le> S" using ta tb tc td unfolding S' by linarith
  from s4 have c: "lo ^ 6 * S \<le> estimateCost b" "estimateCost b \<le> hi ^ 6 * S"
    by (simp_all add: S')
  have "1 + real 6 * (- (1 / 2 ^ 53)) \<le> (1 + - (1 / 2 ^ 53)) ^ 6"
    by (rule Bernoulli_inequality) simp
  then have l6: "1 - 1 / 2 ^ 50 \<le> lo ^ 6" by (simp add: lo_def)
  have h6: "hi ^ 6 \<le> 1 + 1 / 2 ^ 50"
    by (simp add: hi_def power_divide)
  from mult_right_mono [OF l6 S] have e1: "S - S / 2 ^ 50 \<le> lo ^ 6 * S"
    by (simp add: algebra_simps)
  from mult_right_mono [OF h6 S] have e2: "hi ^ 6 * S \<le> S + S / 2 ^ 50"
    by (simp add: algebra_simps)
  from e1 e2 c have "\<bar>estimateCost b - S\<bar> \<le> S / 2 ^ 50"
    by linarith
  then show ?thesis unfolding S_def .
qed

lemma sample_billing_minutes:
  "minutes (byOS sample_billing Linux) = 100" "minutes (byOS sample_billing Windows) = 50"
  "minutes (byOS sample_billing Macos) = 10" "minutes (byOS sample_billing Unknown) = 0"
  by (simp_all add: sample_billing_def initial_result_def)

text \<open>
  C4. For every aggregated billing, \<open>estimateCost\<close> is the sum over the four OS
  categories, in the order linux, windows, macos, unknown, of the minutes of the
  category times its rate per minute, the rates being 0.008 (linux), 0.016 (windows),
  0.08 (macos) and 0.008 (unknown), computed in double precision: every rate, every
  product and every partial sum is rounded to the nearest double. With 100, 50, 10 and
  0 minutes the estimated cost is the double \<open>5404319552844596 / 2 ^ 51\<close>, which
  prints as 2.4000000000000004 and lies \<open>1 / 2814749767106560\<close> above 2.40. When the
  minutes of every category are zero or at least one, the estimated cost is within a
  relative error of \<open>2 ^ - 50\<close> of the sum in exact arithmetic.
\<close>

theorem estimateCost_formula:
  "estimateCost b =
     double (double (double (double (0 + double (minutes (byOS b Linux) * double 0.008))
                               + double (minutes (byOS b Windows) * double 0.016))
                       + double (minutes (byOS b Macos) * double 0.08))
               + double (minutes (byOS b Unknown) * double 0.008))
   \<and> (minutes (byOS b Linux) = 100 \<and> minutes (byOS b Windows) = 50
        \<and> minutes (byOS b Macos) = 10 \<and> minutes (byOS b Unknown) = 0
      \<longrightarrow> estimateCost b = 5404319552844596 / 2 ^ 51
          \<and> estimateCost b - 2.40 = 1 / 2814749767106560)
   \<and> ((\<forall>t. minutes (byOS b t) = 0 \<or> 1 \<le> minutes (byOS b t))
      \<longrightarrow> \<bar>estimateCost b - spec_estimateCost b\<bar> \<le> spec_estimateCost b / 2 ^ 50)"
proof (intro conjI impI)
  show "estimateCost b =
     double (double (double (double (0 + double (minutes (byOS b Linux) * double 0.008))
                               + double (minutes (byOS b Windows) * double 0.016))
                       + double (minutes (byOS b Macos) * double 0.08))
               + double (minutes (byOS b Unknown) * double 0.008))"
    by (rule estimateCost_unfold)
next
  assume "minutes (byOS b Linux) = 100 \<and> minutes (byOS b Windows) = 50
        \<and> minutes (byOS b Macos) = 10 \<and> minutes (byOS b Unknown) = 0"
  then have v: "estimateCost b = 5404319552844596 / 2 ^ 51"
    by (intro estimateCost_100_50_10_0) simp_all
  then show "estimateCost b = 5404319552844596 / 2 ^ 51" .
  from v show "estimateCost b - 2.40 = 1 / 2814749767106560" by simp
next
  assume "\<forall>t. minutes (byOS b t) = 0 \<or> 1 \<le> minutes (byOS b t)"
  then show "\<bar>estimateCost b - spec_estimateCost b\<bar> \<le> spec_estimateCost b / 2 ^ 50"
    by (intro estimateCost_error) simp
qed

text \<open>
  As the specification words it, C4 gives 2.40 for 100, 50, 10 and 0 minutes; the
  estimated cost is neither the real number 2.40 nor the double that the literal 2.40
  denotes, which is \<open>5404319552844595 / 2 ^ 51\<close>.
\<close>

theorem estimateCost_rounding_counterexample:
  "minutes (byOS sample_billing Linux) = 100 \<and> minutes (byOS sample_billing Windows) = 50
   \<and> minutes (byOS sample_billing Macos) = 10 \<and> minutes (byOS sample_billing Unknown) = 0
   \<and> estimateCost sample_billing = 5404319552844596 / 2 ^ 51
   \<and> estimateCost sample_billing \<noteq> 2.40
   \<and> estimateCost sample_billing \<noteq> double 2.40"
proof -
  have e: "estimateCost sample_billing = 5404319552844596 / 2 ^ 51"
    by (intro estimateCost_100_50_10_0 sample_billing_minutes)
  have 1: "estimateCost sample_billing \<noteq> 2.40"
    unfolding e by simp
  have 2: "estimateCost sample_billing \<noteq> double 2.40"
    unfolding e double_2_40 by simp
  show ?thesis
    by (intro conjI sample_billing_minutes e 1 2)
qed

theorem estimateCost_formula_witness:
  "minutes (byOS sample_billing Linux) = 100 \<and> minutes (byOS sample_billing Windows) = 50
   \<and> minutes (byOS sample_billing Macos) = 10 \<and> minutes (byOS sample_billing Unknown) = 0
   \<and> (\<forall>t. minutes (byOS sample_billing t) = 0 \<or> 1 \<le> minutes (byOS sample_billing t))
   \<and> estimateCost sample_billing = 5404319552844596 / 2 ^ 51
   \<and> estimateCost sample_billing - 2.40 = 1 / 2814749767106560
   \<and> spec_estimateCost sample_billing = 2.40
   \<and> \<bar>estimateCost sample_billing - spec_estimateCost sample_billing\<bar>
       \<le> spec_estimateCost sample_billing / 2 ^ 50"
proof -
  have m: "\<forall>t. minutes (byOS sample_billing t) = 0 \<or> 1 \<le> minutes (byOS sample_billing t)"
  proof
    fix t
    show "minutes (byOS sample_billing t) = 0 \<or> 1 \<le> minutes (byOS sample_billing t)"
      by (cases t) (simp_all add: sample_billing_minutes)
  qed
  have s: "spec_estimateCost sample_billing = 2.40"
    by (simp add: spec_estimateCost_unfold sample_billing_minutes)
  from estimateCost_formula [of sample_billing] m s show ?thesis
    by (simp add: sample_billing_minutes)
qed

section \<open>Listing runs and jobs\<close>

lemma pick_job_id: "pick_job j = j"
  by (simp add: pick_job_def)

lemma pick_run_id: "pick_run r = r"
  by (simp add: pick_run_def)

lemma jobs_pages_completed:
  "jobs_pages pg js = Inr js' \<Longrightarrow> \<forall>j\<in>set js. truthy (completed_at j)
     \<Longrightarrow> \<forall>j\<in>set js'. truthy (completed_at j)"
proof (induction pg arbitrary: js)
  case Done
  then show ?case by simp
next
  case (Page response rest)
  from Page.prems(1) have "jobs_pages rest (js @ map pick_job (filter (\<lambda>j. truthy (completed_at j)) response)) = Inr js'"
    by simp
  moreover from Page.prems(2) have "\<forall>j\<in>set (js @ map pick_job (filter (\<lambda>j. truthy (completed_at j)) response)). truthy (completed_at j)"
    by (auto simp: pick_job_id)
  ultimately show ?case by (rule Page.IH)
next
  case (Throw e)
  then show ?case by simp
qed

lemma jobs_pages_throws: "throws pg \<Longrightarrow> \<exists>e. jobs_pages pg js = Inl e"
  by (induction pg arbitrary: js) auto

lemma runs_pages_throws: "throws pg \<Longrightarrow> \<exists>e. runs_pages clk since until pg runs = Inl e"
  by (induction pg arbitrary: runs) auto

text \<open>
  C7. When the listing of the workflow runs of a repository fails with an API error, at
  the first page or at a later one, \<open>listWorkflowRuns\<close> returns the empty list; when
  the listing of the jobs of a run fails, \<open>listRunJobs\<close> returns the empty list. The
  error ends in the \<^verbatim>\<open>catch\<close> block: the result is a list, there is no error to
  propagate. So the two batches, \<open>fetchOrgWorkflowRuns\<close> and \<open>fetchAllJobs\<close>,
  return a list whatever the API answers, once the concurrency limit is accepted.
\<close>

theorem listing_errors_swallowed:
  "(throws (listWorkflowRunsForRepo octokit own repo (created_range rt since until)) \<longrightarrow>
      listWorkflowRuns rt octokit own repo since until = [])
   \<and> (throws (listJobsForWorkflowRun octokit own repo' runId) \<longrightarrow>
      listRunJobs octokit own repo' runId = [])
   \<and> (0 < concurrency \<longrightarrow>
      (\<exists>runs. fst (fetchOrgWorkflowRuns rt octokit repos since until concurrency useCache ttl now1 now2 fs)
         = Inr runs))
   \<and> (0 < concurrency \<longrightarrow>
      (\<exists>js. fst (fetchAllJobs rt octokit rs concurrency useCache ttl now1 now2 fs') = Inr js))"
proof (intro conjI impI)
  assume "throws (listWorkflowRunsForRepo octokit own repo (created_range rt since until))"
  from runs_pages_throws [OF this, of "Date_getTime rt" since until "[]"]
  show "listWorkflowRuns rt octokit own repo since until = []"
    by (auto simp: listWorkflowRuns_def)
next
  assume "throws (listJobsForWorkflowRun octokit own repo' runId)"
  from jobs_pages_throws [OF this, of "[]"] show "listRunJobs octokit own repo' runId = []"
    by (auto simp: listRunJobs_def)
next
  assume "0 < concurrency"
  then show "\<exists>runs. fst (fetchOrgWorkflowRuns rt octokit repos since until concurrency useCache ttl now1 now2 fs)
         = Inr runs"
    by (simp add: fetchOrgWorkflowRuns_def Let_def split: option.splits)
next
  assume "0 < concurrency"
  then show "\<exists>js. fst (fetchAllJobs rt octokit rs concurrency useCache ttl now1 now2 fs') = Inr js"
    by (simp add: fetchAllJobs_def Let_def split: option.splits)
qed

theorem listing_errors_swallowed_witness:
  "throws (listWorkflowRunsForRepo sample_octokit ''octo'' ''private''
             (created_range sample_runtime 1704067200000 1704187800000))
   \<and> listWorkflowRuns sample_runtime sample_octokit ''octo'' ''private'' 1704067200000 1704187800000 = []
   \<and> throws (listJobsForWorkflowRun sample_octokit ''octo'' (Some ''api'') 43)
   \<and> listRunJobs sample_octokit ''octo'' (Some ''api'') 43 = []
   \<and> (0::nat) < 5
   \<and> fst (fetchOrgWorkflowRuns sample_runtime sample_octokit
            [\<lparr>Repository.name = ''private'', Repository.full_name = ''octo/private'', owner = ''octo''\<rparr>]
            1704067200000 1704187800000 5 False DEFAULT_CACHE_TTL 0 0 empty_fs) = Inr []
   \<and> fst (fetchAllJobs sample_runtime sample_octokit
            [sample_run\<lparr>WorkflowRun.id' := 43\<rparr>] 5 False DEFAULT_CACHE_TTL 0 0 empty_fs) = Inr []"
proof -
  have t: "throws (listWorkflowRunsForRepo sample_octokit ''octo'' ''private''
             (created_range sample_runtime 1704067200000 1704187800000))"
    "throws (listJobsForWorkflowRun sample_octokit ''octo'' (Some ''api'') 43)"
    by (simp_all add: sample_octokit_def)
  have s: "split_str (CHR ''/'') (RunRepository.full_name (repository (sample_run\<lparr>WorkflowRun.id' := 43\<rparr>)))
      = [''octo'', ''api'']"
    by (simp add: sample_run_def)
  from listing_errors_swallowed [of sample_octokit "''octo''" "''private''" sample_runtime
      1704067200000 1704187800000 "Some ''api''" 43 5] t
  have l: "listWorkflowRuns sample_runtime sample_octokit ''octo'' ''private'' 1704067200000 1704187800000 = []"
    "listRunJobs sample_octokit ''octo'' (Some ''api'') 43 = []"
    by simp_all
  from t l s show ?thesis
    by (simp add: fetchOrgWorkflowRuns_def fetchAllJobs_def run_task_def Let_def)
qed

lemma listRunJobs_completed: "j \<in> set (listRunJobs octokit own repo runId) \<Longrightarrow> truthy (completed_at j)"
proof (cases "jobs_pages (listJobsForWorkflowRun octokit own repo runId) []")
  case (Inl e)
  assume "j \<in> set (listRunJobs octokit own repo runId)"
  with Inl show ?thesis by (simp add: listRunJobs_def)
next
  case (Inr js)
  assume "j \<in> set (listRunJobs octokit own repo runId)"
  with Inr jobs_pages_completed [OF Inr] show ?thesis by (simp add: listRunJobs_def)
qed

lemma denormalize_fields:
  "repo_full_name (denormalize run j) = RunRepository.full_name (repository run)"
  "workflow_name (denormalize run j) = WorkflowRun.name run"
  "completed_at (denormalize run j) = completed_at j"
  by (simp_all add: denormalize_def)

lemma run_task_member:
  assumes "j \<in> set (run_task octokit run)"
  shows "repo_full_name j = RunRepository.full_name (repository run)
     \<and> workflow_name j = WorkflowRun.name run \<and> truthy (completed_at j)"
proof -
  from assms obtain own repo j0 where
    j0: "j0 \<in> set (listRunJobs octokit own repo (WorkflowRun.id' run))" and j: "j = denormalize run j0"
    unfolding run_task_def Let_def by auto
  from listRunJobs_completed [OF j0] j show ?thesis
    by (simp add: denormalize_fields)
qed

text \<open>
  C6, as the code has it. When \<open>fetchAllJobs\<close> fetches (caching is off or the cache
  has no fresh entry) with a concurrency of at least 1, it returns the jobs of the runs
  in the order of the runs, and every job it returns carries the full name of the
  repository of its run as \<open>repo_full_name\<close> and the name of its run, unchanged, as
  \<open>workflow_name\<close>: the name is absent when the run has none, and no
  \<^verbatim>\<open>"unknown"\<close> is put in its place here (\<open>aggregateBilling\<close> does that later,
  in its keys). Every such job has a non-null, non-empty \<open>completed_at\<close>. On a
  cache hit the stored list is returned as it is.
\<close>

theorem fetchAllJobs_denormalized:
  "(fetches rt runs useCache cacheTtlMs now1 fs \<and> 0 < concurrency \<longrightarrow>
      fst (fetchAllJobs rt octokit runs concurrency useCache cacheTtlMs now1 now2 fs) =
        Inr (concat (map (run_task octokit) runs))
      \<and> (\<forall>j \<in> set (concat (map (run_task octokit) runs)).
            \<exists>run \<in> set runs.
              repo_full_name j = RunRepository.full_name (repository run)
              \<and> workflow_name j = WorkflowRun.name run
              \<and> truthy (completed_at j) \<and> completed_at j \<noteq> None))
   \<and> (useCache \<and> fst (getCache rt now1 fs (jobs_cacheKey runs) cacheTtlMs) = Some cached \<longrightarrow>
      fst (fetchAllJobs rt octokit runs concurrency useCache cacheTtlMs now1 now2 fs) = Inr cached)"
proof (intro conjI impI ballI)
  assume a: "fetches rt runs useCache cacheTtlMs now1 fs \<and> 0 < concurrency"
  show "fst (fetchAllJobs rt octokit runs concurrency useCache cacheTtlMs now1 now2 fs) =
        Inr (concat (map (run_task octokit) runs))"
  proof (cases useCache)
    case True
    with a show ?thesis by (simp add: fetchAllJobs_def fetches_def Let_def)
  next
    case False
    with a show ?thesis by (simp add: fetchAllJobs_def Let_def)
  qed
next
  fix j
  assume "j \<in> set (concat (map (run_task octokit) runs))"
  then obtain run where run: "run \<in> set runs" "j \<in> set (run_task octokit run)"
    by auto
  from run_task_member [OF run(2)] have
    "repo_full_name j = RunRepository.full_name (repository run)
       \<and> workflow_name j = WorkflowRun.name run \<and> truthy (completed_at j) \<and> completed_at j \<noteq> None"
    by (cases "completed_at j") simp_all
  with run(1) show "\<exists>run \<in> set runs.
              repo_full_name j = RunRepository.full_name (repository run)
              \<and> workflow_name j = WorkflowRun.name run
              \<and> truthy (completed_at j) \<and> completed_at j \<noteq> None"
    by blast
next
  assume "useCache \<and> fst (getCache rt now1 fs (jobs_cacheKey runs) cacheTtlMs) = Some cached"
  then show "fst (fetchAllJobs rt octokit runs concurrency useCache cacheTtlMs now1 now2 fs) = Inr cached"
    by (simp add: fetchAllJobs_def Let_def)
qed

lemma sample_listRunJobs: "listRunJobs sample_octokit ''octo'' (Some ''api'') 42 = [sample_job]"
  by (simp add: listRunJobs_def sample_octokit_def pick_job_id sample_job_def)

lemma sample_run_task: "run_task sample_octokit sample_run = [denormalize sample_run sample_job]"
proof -
  have "split_str (CHR ''/'') (RunRepository.full_name (repository sample_run)) = [''octo'', ''api'']"
    by (simp add: sample_run_def)
  moreover have "WorkflowRun.id' sample_run = 42"
    by (simp add: sample_run_def)
  ultimately show ?thesis
    by (simp add: run_task_def Let_def sample_listRunJobs)
qed

lemma sample_fetch:
  "fst (fetchAllJobs sample_runtime sample_octokit [sample_run] 5 False DEFAULT_CACHE_TTL 0 0 empty_fs) =
     Inr [denormalize sample_run sample_job]"
  by (simp add: fetchAllJobs_def Let_def sample_run_task)

text \<open>
  As the specification words it, C6 fails on a run without a name: the job comes back with no
  workflow name, not with \<^verbatim>\<open>"unknown"\<close>.
\<close>

theorem fetchAllJobs_unknown_counterexample:
  "\<exists>j. fst (fetchAllJobs sample_runtime sample_octokit [sample_run] 5 False DEFAULT_CACHE_TTL 0 0 empty_fs) = Inr [j]
     \<and> WorkflowRun.name sample_run = None
     \<and> workflow_name j = None
     \<and> workflow_name j \<noteq> Some ''unknown''"
  by (simp add: sample_fetch denormalize_fields) (simp add: sample_run_def)

theorem fetchAllJobs_denormalized_witness:
  "fetches sample_runtime [sample_run] False DEFAULT_CACHE_TTL 0 empty_fs \<and> (0::nat) < 5
   \<and> fst (fetchAllJobs sample_runtime sample_octokit [sample_run] 5 False DEFAULT_CACHE_TTL 0 0 empty_fs) =
        Inr [denormalize sample_run sample_job]
   \<and> repo_full_name (denormalize sample_run sample_job) = ''octo/api''
   \<and> truthy (completed_at (denormalize sample_run sample_job))"
  using fetchAllJobs_denormalized [of sample_runtime "[sample_run]" False DEFAULT_CACHE_TTL 0 empty_fs 5
      sample_octokit 0 "[]"]
  by (simp add: fetches_def sample_run_task denormalize_fields) (simp add: sample_run_def sample_job_def)

section \<open>Cache round trip and freshness\<close>

lemma ensureCacheDir_writable:
  "\<not> read_only fs \<Longrightarrow> \<exists>fs1. ensureCacheDir rt fs = Inr fs1 \<and> files fs1 = files fs \<and> \<not> read_only fs1
     \<and> existsSync fs1 (CACHE_DIR rt)"
  by (auto simp: ensureCacheDir_def mkdirSync_def existsSync_def)

lemma ensureCacheDir_files:
  "ensureCacheDir rt fs = Inr fs1 \<Longrightarrow> files fs1 = files fs \<and> read_only fs1 = read_only fs"
  by (auto simp: ensureCacheDir_def mkdirSync_def split: if_splits)

lemma setCache_writable:
  assumes "\<not> read_only fs"
  shows "files (setCache rt now fs keyParts d ttl0) (cache_file rt keyParts) =
           Some (Json \<lparr>version = CACHE_VERSION, timestamp = now, ttlMs = ttl0, data = d\<rparr>)"
    and "\<not> read_only (setCache rt now fs keyParts d ttl0)"
    and "existsSync (setCache rt now fs keyParts d ttl0) (CACHE_DIR rt)"
proof -
  from ensureCacheDir_writable [OF assms, of rt] obtain fs1 where
    fs1: "ensureCacheDir rt fs = Inr fs1" "files fs1 = files fs" "\<not> read_only fs1"
      "existsSync fs1 (CACHE_DIR rt)"
    by blast
  then have eq: "setCache rt now fs keyParts d ttl0 =
      fs1\<lparr>files := (files fs1)(cache_file rt keyParts \<mapsto>
        Json \<lparr>version = CACHE_VERSION, timestamp = now, ttlMs = ttl0, data = d\<rparr>)\<rparr>"
    by (simp add: setCache_def Let_def writeFileSync_def cache_file_def)
  show "files (setCache rt now fs keyParts d ttl0) (cache_file rt keyParts) =
           Some (Json \<lparr>version = CACHE_VERSION, timestamp = now, ttlMs = ttl0, data = d\<rparr>)"
    by (simp add: eq)
  show "\<not> read_only (setCache rt now fs keyParts d ttl0)"
    by (simp add: eq fs1)
  show "existsSync (setCache rt now fs keyParts d ttl0) (CACHE_DIR rt)"
    using fs1(4) by (simp add: eq existsSync_def)
qed

lemma getCache_fresh:
  assumes "files fs (cache_file rt keyParts) = Some (Json e)"
    and "existsSync fs (CACHE_DIR rt) \<or> \<not> read_only fs"
    and "version e = CACHE_VERSION" and "now - timestamp e \<le> ttl"
  shows "fst (getCache rt now fs keyParts ttl) = Some (data e)"
proof -
  from assms(2) have "\<exists>fs1. ensureCacheDir rt fs = Inr fs1"
    by (auto simp: ensureCacheDir_def mkdirSync_def)
  then obtain fs1 where fs1: "ensureCacheDir rt fs = Inr fs1"
    by blast
  from ensureCacheDir_files [OF fs1] assms(1)
  have "files fs1 (cache_file rt keyParts) = Some (Json e)"
    by simp
  with fs1 assms(3,4) show ?thesis
    by (simp add: getCache_def Let_def cache_file_def existsSync_def readFileSync_def JSON_parse_def)
qed

lemma getCache_Some:
  assumes "fst (getCache rt now fs keyParts ttl) = Some d"
  shows "\<exists>e. files fs (cache_file rt keyParts) = Some (Json e) \<and> version e = CACHE_VERSION
            \<and> now - timestamp e \<le> ttl \<and> data e = d"
proof (cases "ensureCacheDir rt fs")
  case (Inl a)
  with assms show ?thesis by (simp add: getCache_def)
next
  case (Inr fs1)
  from ensureCacheDir_files [OF Inr] have f: "files fs1 = files fs" by simp
  from assms Inr show ?thesis
    unfolding f [symmetric]
    by (auto simp: getCache_def Let_def cache_file_def readFileSync_def JSON_parse_def
        split: if_splits option.splits sum.splits content.splits)
qed

lemma getCache_stale:
  assumes "files fs (cache_file rt keyParts) = Some (Json e)"
    and "version e \<noteq> CACHE_VERSION \<or> now - timestamp e > ttl"
  shows "fst (getCache rt now fs keyParts ttl) = None"
    and "\<not> read_only fs \<Longrightarrow> files (snd (getCache rt now fs keyParts ttl)) (cache_file rt keyParts) = None"
proof -
  show "fst (getCache rt now fs keyParts ttl) = None"
  proof (cases "fst (getCache rt now fs keyParts ttl)")
    case None
    then show ?thesis .
  next
    case (Some d)
    from getCache_Some [OF Some] assms show ?thesis by auto
  qed
  assume w: "\<not> read_only fs"
  from ensureCacheDir_writable [OF w, of rt] obtain fs1 where
    fs1: "ensureCacheDir rt fs = Inr fs1" "files fs1 = files fs" "\<not> read_only fs1"
    by blast
  with assms show "files (snd (getCache rt now fs keyParts ttl)) (cache_file rt keyParts) = None"
    by (auto simp: getCache_def Let_def cache_file_def existsSync_def readFileSync_def
        JSON_parse_def unlinkSync_def)
qed

text \<open>
  C8, as the code has it. When the file system can be written and the age of the entry
  at the read is at most the ttl (for an immediate read: when the ttl is not negative),
  \<open>setCache\<close> followed by \<open>getCache\<close> with the same key returns the data. A
  \<open>getCache\<close> that finds an entry of another version, or one older than the ttl,
  reports absence, and deletes the file when the file system lets it. Whatever
  \<open>getCache\<close> returns is the data of a stored entry of the current version whose age
  is at most the ttl: it never returns stale data.
\<close>

theorem cache_round_trip_and_freshness:
  "(\<not> read_only fs \<and> now' - now \<le> ttl \<longrightarrow>
      fst (getCache rt now' (setCache rt now fs keyParts d ttl0) keyParts ttl) = Some d)
   \<and> (files fs (cache_file rt keyParts) = Some (Json e)
        \<and> (version e \<noteq> CACHE_VERSION \<or> now - timestamp e > ttl) \<longrightarrow>
      fst (getCache rt now fs keyParts ttl) = None
      \<and> (\<not> read_only fs \<longrightarrow>
           files (snd (getCache rt now fs keyParts ttl)) (cache_file rt keyParts) = None))
   \<and> (fst (getCache rt now fs keyParts ttl) = Some d' \<longrightarrow>
        (\<exists>e'. files fs (cache_file rt keyParts) = Some (Json e') \<and> version e' = CACHE_VERSION
            \<and> now - timestamp e' \<le> ttl \<and> data e' = d'))"
proof (intro conjI impI)
  assume a: "\<not> read_only fs \<and> now' - now \<le> ttl"
  let ?fs = "setCache rt now fs keyParts d ttl0"
  have "fst (getCache rt now' ?fs keyParts ttl) =
      Some (data \<lparr>version = CACHE_VERSION, timestamp = now, ttlMs = ttl0, data = d\<rparr>)"
    using a setCache_writable [of fs rt now keyParts d ttl0]
    by (intro getCache_fresh) simp_all
  then show "fst (getCache rt now' ?fs keyParts ttl) = Some d"
    by simp
next
  assume "files fs (cache_file rt keyParts) = Some (Json e)
        \<and> (version e \<noteq> CACHE_VERSION \<or> now - timestamp e > ttl)"
  then show "fst (getCache rt now fs keyParts ttl) = None"
    using getCache_stale(1) by blast
next
  assume "files fs (cache_file rt keyParts) = Some (Json e)
        \<and> (version e \<noteq> CACHE_VERSION \<or> now - timestamp e > ttl)" and "\<not> read_only fs"
  then show "files (snd (getCache rt now fs keyParts ttl)) (cache_file rt keyParts) = None"
    using getCache_stale(2) by blast
next
  assume "fst (getCache rt now fs keyParts ttl) = Some d'"
  then show "\<exists>e'. files fs (cache_file rt keyParts) = Some (Json e') \<and> version e' = CACHE_VERSION
            \<and> now - timestamp e' \<le> ttl \<and> data e' = d'"
    by (rule getCache_Some)
qed

lemma sample_paths:
  "cache_file sample_runtime [''repos'', ''octo''] = ''/home/runner/.gh-forecast-cache/repos|octo.json''"
  "CACHE_DIR sample_runtime = ''/home/runner/.gh-forecast-cache''"
  by (simp_all add: cache_file_def getCachePath_def getCacheKey_def CACHE_DIR_def sample_runtime_def)

text \<open>
  As the specification words it, C8 fails in three ways: with a negative ttl the entry just written
  is already too old and is deleted; on a read-only file system \<open>setCache\<close> stores
  nothing; and there \<open>getCache\<close> cannot delete a stale entry.
\<close>

theorem cache_round_trip_counterexample:
  "fst (getCache sample_runtime 0
          (setCache sample_runtime 0 (empty_fs :: nat filesystem) [''repos'', ''octo''] 7 (- 1))
          [''repos'', ''octo''] (- 1)) = None
   \<and> fst (getCache sample_runtime 0
          (setCache sample_runtime 0 ((empty_fs :: nat filesystem)\<lparr>read_only := True\<rparr>) [''repos'', ''octo''] 7 1000)
          [''repos'', ''octo''] 1000) = None
   \<and> files (snd (getCache sample_runtime 5000 (stale_fs\<lparr>read_only := True\<rparr>) [''repos'', ''octo''] 1000))
        (cache_file sample_runtime [''repos'', ''octo'']) \<noteq> None"
proof (intro conjI)
  let ?k = "[''repos'', ''octo'']"
  have "\<exists>e. files (setCache sample_runtime 0 (empty_fs :: nat filesystem) ?k 7 (- 1)) (cache_file sample_runtime ?k) = Some (Json e)
      \<and> timestamp e = 0"
    using setCache_writable(1) [of "empty_fs :: nat filesystem" sample_runtime 0 ?k 7 "- 1"]
    by (simp add: empty_fs_def)
  then obtain e where e: "files (setCache sample_runtime 0 (empty_fs :: nat filesystem) ?k 7 (- 1)) (cache_file sample_runtime ?k) = Some (Json e)"
    "timestamp e = 0" by blast
  show "fst (getCache sample_runtime 0 (setCache sample_runtime 0 (empty_fs :: nat filesystem) ?k 7 (- 1)) ?k (- 1)) = None"
    by (rule getCache_stale(1) [OF e(1)]) (simp add: e(2))
next
  let ?k = "[''repos'', ''octo'']"
  have s: "setCache sample_runtime 0 ((empty_fs :: nat filesystem)\<lparr>read_only := True\<rparr>) ?k 7 1000 = empty_fs\<lparr>read_only := True\<rparr>"
    by (simp add: setCache_def ensureCacheDir_def existsSync_def mkdirSync_def empty_fs_def)
  show "fst (getCache sample_runtime 0 (setCache sample_runtime 0 ((empty_fs :: nat filesystem)\<lparr>read_only := True\<rparr>) ?k 7 1000) ?k 1000) = None"
    unfolding s by (simp add: getCache_def ensureCacheDir_def existsSync_def mkdirSync_def empty_fs_def)
next
  show "files (snd (getCache sample_runtime 5000 (stale_fs\<lparr>read_only := True\<rparr>) [''repos'', ''octo''] 1000))
        (cache_file sample_runtime [''repos'', ''octo'']) \<noteq> None"
    by (simp add: getCache_def ensureCacheDir_def existsSync_def Let_def readFileSync_def JSON_parse_def
        unlinkSync_def stale_fs_def cache_file_def [symmetric] CACHE_VERSION_def)
qed

theorem cache_round_trip_and_freshness_witness:
  "\<not> read_only (empty_fs :: nat filesystem) \<and> (0::int) - 0 \<le> 1000
   \<and> fst (getCache sample_runtime 0 (setCache sample_runtime 0 (empty_fs :: nat filesystem) [''repos'', ''octo''] 7 1000)
        [''repos'', ''octo''] 1000) = Some 7
   \<and> files stale_fs (cache_file sample_runtime [''repos'', ''octo'']) =
        Some (Json \<lparr>version = CACHE_VERSION, timestamp = 0, ttlMs = 1000, data = 7\<rparr>)
   \<and> 5000 - timestamp \<lparr>version = CACHE_VERSION, timestamp = 0, ttlMs = 1000, data = 7::nat\<rparr> > 1000
   \<and> fst (getCache sample_runtime 5000 stale_fs [''repos'', ''octo''] 1000) = None
   \<and> \<not> read_only stale_fs
   \<and> files (snd (getCache sample_runtime 5000 stale_fs [''repos'', ''octo''] 1000))
        (cache_file sample_runtime [''repos'', ''octo'']) = None
   \<and> fst (getCache sample_runtime 500 stale_fs [''repos'', ''octo''] 1000) = Some 7"
  using cache_round_trip_and_freshness [of "empty_fs :: nat filesystem" 0 0 1000 sample_runtime
      "[''repos'', ''octo'']" 7 1000 "\<lparr>version = CACHE_VERSION, timestamp = 0, ttlMs = 1000, data = 7\<rparr>" 7]
    cache_round_trip_and_freshness [of stale_fs 5000 5000 1000 sample_runtime
      "[''repos'', ''octo'']" 7 1000 "\<lparr>version = CACHE_VERSION, timestamp = 0, ttlMs = 1000, data = 7\<rparr>" 7]
    getCache_fresh [of stale_fs sample_runtime "[''repos'', ''octo'']"
      "\<lparr>version = CACHE_VERSION, timestamp = 0, ttlMs = 1000, data = 7\<rparr>" 500 1000]
  by (simp add: empty_fs_def stale_fs_def existsSync_def)

section \<open>Properties of the aggregation\<close>

lemma step_fields:
  "totalMinutes (fst (aggregate_step j b st)) = totalMinutes (fst st) + durationMinutes b"
  "totalBillableMinutes (fst (aggregate_step j b st)) =
     totalBillableMinutes (fst st) + BillingResult.billableMinutes b"
  "jobCount (fst (aggregate_step j b st)) = Suc (jobCount (fst st))"
  "runCount (fst (aggregate_step j b st)) = runCount (fst st)"
  "jobs (fst (aggregate_step j b st)) = jobs (fst st) @ [b]"
  "snd (aggregate_step j b st) = insert (run_id j) (snd st)"
  by (simp_all add: aggregate_step_def Let_def)

lemma step_byOS:
  "byOS (fst (aggregate_step j b st)) =
     (byOS (fst st))(BillingResult.os b := accumulate b (byOS (fst st) (BillingResult.os b)))"
  by (simp add: aggregate_step_def Let_def)

lemma step_byWorkflow:
  "byWorkflow (fst (aggregate_step j b st)) =
     (byWorkflow (fst st))(workflowKey j \<mapsto> accumulate b
        (entry_or (byWorkflow (fst st)) (workflowKey j)
           \<lparr>minutes = 0, billableMinutes = 0, jobCount = 0, WorkflowUsage.runCount = 0\<rparr>))"
  by (simp add: aggregate_step_def Let_def)

lemma step_byRepo:
  "byRepo (fst (aggregate_step j b st)) =
     (byRepo (fst st))(repo_full_name j \<mapsto>
        (accumulate b
           (entry_or (byRepo (fst st)) (repo_full_name j)
              \<lparr>minutes = 0, billableMinutes = 0, jobCount = 0, workflows = {}\<rparr>))
        \<lparr>workflows := insert (or_else (workflow_name j) ''unknown'')
            (workflows (entry_or (byRepo (fst st)) (repo_full_name j)
              \<lparr>minutes = 0, billableMinutes = 0, jobCount = 0, workflows = {}\<rparr>))\<rparr>)"
  by (simp add: aggregate_step_def Let_def accumulate_def)

lemma step_byDate:
  "byDate (fst (aggregate_step j b st)) =
     (byDate (fst st))(dateKey j \<mapsto> accumulate b
        (entry_or (byDate (fst st)) (dateKey j)
           \<lparr>minutes = 0, billableMinutes = 0, Usage.jobCount = 0\<rparr>))"
  by (simp add: aggregate_step_def Let_def)

lemma aggregate_loop_filter:
  "aggregate_loop getTime cm js st = aggregate_loop getTime cm (filter completed js) st"
  by (induction js arbitrary: st) (simp_all split: sum.splits)

lemma runs_loop_filter: "runs_loop js m = runs_loop (filter completed js) m"
  by (induction js arbitrary: m) (simp_all add: Let_def)

lemma aggregateBilling_filter:
  "aggregateBilling getTime js cm = aggregateBilling getTime (filter completed js) cm"
proof -
  have a: "aggregate_loop getTime cm js (initial_result, {}) =
      aggregate_loop getTime cm (filter completed js) (initial_result, {})"
    by (rule aggregate_loop_filter)
  have b: "runs_loop js Map.empty = runs_loop (filter completed js) Map.empty"
    by (rule runs_loop_filter)
  show ?thesis
    unfolding aggregateBilling_def by (simp only: a b)
qed

lemma processJob_Inr:
  "processJob getTime j cm = Inr b \<Longrightarrow> b = billing_of getTime cm j"
  by (auto simp: processJob_def billing_of_def Let_def getMultiplier_def split: sum.splits)

lemma processJob_Inl:
  "(processJob getTime j cm = Inl e) = (detectOS (labels j) cm = Inl e)"
  by (auto simp: processJob_def Let_def split: sum.splits)

lemma processJob_cases:
  "processJob getTime j cm = Inl SyntaxError \<or> processJob getTime j cm = Inr (billing_of getTime cm j)"
proof (cases "processJob getTime j cm")
  case (Inl e)
  then show ?thesis by (cases e) simp
next
  case (Inr b)
  with processJob_Inr [OF Inr] show ?thesis by simp
qed

lemma billing_of_fields:
  "durationMinutes (billing_of getTime cm j) = job_duration getTime j"
  "BillingResult.billableMinutes (billing_of getTime cm j) =
     job_duration getTime j * MULTIPLIERS (BillingResult.os (billing_of getTime cm j))"
  "job (billing_of getTime cm j) = j"
  by (simp_all add: billing_of_def Let_def)

lemma aggregate_loop_fold:
  "processable cm js \<Longrightarrow>
   aggregate_loop getTime cm js st =
     Inr (fold (\<lambda>j. aggregate_step j (billing_of getTime cm j)) (filter completed js) st)"
proof (induction js arbitrary: st)
  case Nil
  then show ?case by simp
next
  case (Cons j js)
  show ?case
  proof (cases "completed j")
    case False
    with Cons show ?thesis by (simp add: processable_def)
  next
    case True
    with Cons.prems have ok: "detectOS (labels j) cm \<noteq> Inl SyntaxError" and rest: "processable cm js"
      by (simp_all add: processable_def)
    from ok processJob_cases [of getTime j cm] have "processJob getTime j cm = Inr (billing_of getTime cm j)"
      by (simp add: processJob_Inl)
    with True Cons.IH [OF rest] show ?thesis by simp
  qed
qed

lemma aggregate_loop_error:
  "\<not> processable cm js \<Longrightarrow> aggregate_loop getTime cm js st = Inl SyntaxError"
proof (induction js arbitrary: st)
  case Nil
  then show ?case by (simp add: processable_def)
next
  case (Cons j js)
  show ?case
  proof (cases "completed j")
    case False
    with Cons show ?thesis by (simp add: processable_def)
  next
    case True
    show ?thesis
    proof (cases "detectOS (labels j) cm = Inl SyntaxError")
      case bad: True
      then have "processJob getTime j cm = Inl SyntaxError" by (simp add: processJob_Inl)
      with True show ?thesis by simp
    next
      case ok: False
      with True Cons.prems have "\<not> processable cm js" by (simp add: processable_def)
      from Cons.IH [OF this] have ih: "\<And>st. aggregate_loop getTime cm js st = Inl SyntaxError" .
      from ok processJob_cases [of getTime j cm] have "processJob getTime j cm = Inr (billing_of getTime cm j)"
        by (simp add: processJob_Inl)
      with True ih show ?thesis by simp
    qed
  qed
qed

lemma aggregate_loop_Inr:
  assumes "aggregate_loop getTime cm js st = Inr st'"
  shows "processable cm js"
    and "st' = fold (\<lambda>j. aggregate_step j (billing_of getTime cm j)) (filter completed js) st"
proof -
  show p: "processable cm js"
  proof (rule ccontr)
    assume "\<not> processable cm js"
    from aggregate_loop_error [OF this, of getTime st] assms show False by simp
  qed
  from aggregate_loop_fold [OF p, of getTime st] assms
  show "st' = fold (\<lambda>j. aggregate_step j (billing_of getTime cm j)) (filter completed js) st"
    by simp
qed

lemma processable_no_mappings: "processable [] js"
  by (simp add: processable_def detectOS_def list_all_iff split: option.splits)

lemma fold_step_scalars:
  "jobCount (fst (fold (\<lambda>j. aggregate_step j (b j)) js st)) = jobCount (fst st) + length js"
  "totalMinutes (fst (fold (\<lambda>j. aggregate_step j (b j)) js st)) =
     totalMinutes (fst st) + (\<Sum>j\<leftarrow>js. durationMinutes (b j))"
  "totalBillableMinutes (fst (fold (\<lambda>j. aggregate_step j (b j)) js st)) =
     totalBillableMinutes (fst st) + (\<Sum>j\<leftarrow>js. BillingResult.billableMinutes (b j))"
  "snd (fold (\<lambda>j. aggregate_step j (b j)) js st) = snd st \<union> run_id ` set js"
  "jobs (fst (fold (\<lambda>j. aggregate_step j (b j)) js st)) = jobs (fst st) @ map b js"
  by (induction js arbitrary: st) (simp_all add: step_fields)

lemma fold_step_byOS:
  "byOS (fst (fold (\<lambda>j. aggregate_step j (b j)) js st)) = fold (upd_os b) js (byOS (fst st))"
  by (induction js arbitrary: st) (simp_all add: step_byOS upd_os_def)

lemma fold_step_byWorkflow:
  "byWorkflow (fst (fold (\<lambda>j. aggregate_step j (b j)) js st)) =
     fold (upd_usage workflowKey \<lparr>minutes = 0, billableMinutes = 0, jobCount = 0, WorkflowUsage.runCount = 0\<rparr> b)
       js (byWorkflow (fst st))"
  by (induction js arbitrary: st) (simp_all add: step_byWorkflow upd_usage_def)

lemma fold_step_byRepo:
  "byRepo (fst (fold (\<lambda>j. aggregate_step j (b j)) js st)) = fold (upd_repo b) js (byRepo (fst st))"
  by (induction js arbitrary: st) (simp_all add: step_byRepo upd_repo_def)

lemma fold_step_byDate:
  "byDate (fst (fold (\<lambda>j. aggregate_step j (b j)) js st)) =
     fold (upd_usage dateKey \<lparr>minutes = 0, billableMinutes = 0, Usage.jobCount = 0\<rparr> b) js (byDate (fst st))"
  by (induction js arbitrary: st) (simp_all add: step_byDate upd_usage_def)

lemma runs_loop_fold: "runs_loop js m = fold upd_runs (filter completed js) m"
  by (induction js arbitrary: m) (simp_all add: upd_runs_def Let_def)

lemma accumulate_commute: "accumulate b1 (accumulate b2 e) = accumulate b2 (accumulate b1 e)"
  by (simp add: accumulate_def)

lemma accumulate_fields:
  "minutes (accumulate b e) = minutes e + durationMinutes b"
  "Usage.billableMinutes (accumulate b e) = Usage.billableMinutes e + BillingResult.billableMinutes b"
  "Usage.jobCount (accumulate b e) = Suc (Usage.jobCount e)"
  by (simp_all add: accumulate_def)

lemma upd_os_commute: "upd_os b x \<circ> upd_os b y = upd_os b y \<circ> upd_os b x"
proof (rule ext)
  fix f
  show "(upd_os b x \<circ> upd_os b y) f = (upd_os b y \<circ> upd_os b x) f"
  proof (cases "BillingResult.os (b x) = BillingResult.os (b y)")
    case True
    then show ?thesis by (simp add: upd_os_def accumulate_commute)
  next
    case False
    then show ?thesis by (simp add: upd_os_def fun_upd_twist)
  qed
qed

lemma upd_usage_commute:
  "upd_usage key fresh b x \<circ> upd_usage key fresh b y = upd_usage key fresh b y \<circ> upd_usage key fresh b x"
proof (rule ext)
  fix m
  show "(upd_usage key fresh b x \<circ> upd_usage key fresh b y) m = (upd_usage key fresh b y \<circ> upd_usage key fresh b x) m"
  proof (cases "key x = key y")
    case True
    then show ?thesis by (simp add: upd_usage_def entry_or_def accumulate_commute)
  next
    case False
    then show ?thesis by (simp add: upd_usage_def entry_or_def fun_upd_twist)
  qed
qed

lemma upd_repo_commute: "upd_repo b x \<circ> upd_repo b y = upd_repo b y \<circ> upd_repo b x"
proof (rule ext)
  fix m
  show "(upd_repo b x \<circ> upd_repo b y) m = (upd_repo b y \<circ> upd_repo b x) m"
  proof (cases "repo_full_name x = repo_full_name y")
    case True
    then show ?thesis
      by (simp add: upd_repo_def entry_or_def accumulate_def insert_commute add.commute add.left_commute)
  next
    case False
    then show ?thesis by (simp add: upd_repo_def entry_or_def fun_upd_twist)
  qed
qed

lemma upd_runs_commute: "upd_runs x \<circ> upd_runs y = upd_runs y \<circ> upd_runs x"
proof (rule ext)
  fix m
  show "(upd_runs x \<circ> upd_runs y) m = (upd_runs y \<circ> upd_runs x) m"
  proof (cases "workflowKey x = workflowKey y")
    case True
    then show ?thesis by (simp add: upd_runs_def entry_or_def insert_commute)
  next
    case False
    then show ?thesis by (simp add: upd_runs_def entry_or_def fun_upd_twist)
  qed
qed

lemma aggregateBilling_eq:
  "aggregateBilling getTime js cm =
     (if processable cm js then Inr (aggregate_result getTime cm js) else Inl SyntaxError)"
proof (cases "processable cm js")
  case True
  from aggregate_loop_fold [OF True, of getTime "(initial_result, {})"] True show ?thesis
    by (simp add: aggregateBilling_def aggregate_result_def Let_def)
next
  case False
  from aggregate_loop_error [OF False, of getTime "(initial_result, {})"] False show ?thesis
    by (simp add: aggregateBilling_def)
qed

lemma aggregateBilling_Inr:
  "aggregateBilling getTime js cm = Inr r \<Longrightarrow> processable cm js \<and> r = aggregate_result getTime cm js"
  by (simp add: aggregateBilling_eq split: if_splits)

lemma result_scalars:
  "jobCount (aggregate_result getTime cm js) = length (filter completed js)"
  "totalMinutes (aggregate_result getTime cm js) = (\<Sum>j\<leftarrow>filter completed js. job_duration getTime j)"
  "totalBillableMinutes (aggregate_result getTime cm js) =
     (\<Sum>j\<leftarrow>filter completed js. BillingResult.billableMinutes (billing_of getTime cm j))"
  "runCount (aggregate_result getTime cm js) = card (run_id ` set (filter completed js))"
  "jobs (aggregate_result getTime cm js) = map (billing_of getTime cm) (filter completed js)"
  by (simp_all add: aggregate_result_def Let_def fold_step_scalars initial_result_def billing_of_fields)

lemma result_byOS:
  "byOS (aggregate_result getTime cm js) =
     fold (upd_os (billing_of getTime cm)) (filter completed js)
       (\<lambda>_. \<lparr>minutes = 0, billableMinutes = 0, Usage.jobCount = 0\<rparr>)"
  by (simp add: aggregate_result_def Let_def fold_step_byOS initial_result_def)

lemma result_byWorkflow:
  "byWorkflow (aggregate_result getTime cm js) =
     set_runCounts (fold upd_runs (filter completed js) Map.empty)
       (fold (upd_usage workflowKey \<lparr>minutes = 0, billableMinutes = 0, jobCount = 0, WorkflowUsage.runCount = 0\<rparr>
                (billing_of getTime cm)) (filter completed js) Map.empty)"
  by (simp add: aggregate_result_def Let_def fold_step_byWorkflow initial_result_def runs_loop_fold)

lemma result_byRepo:
  "byRepo (aggregate_result getTime cm js) =
     fold (upd_repo (billing_of getTime cm)) (filter completed js) Map.empty"
  by (simp add: aggregate_result_def Let_def fold_step_byRepo initial_result_def)

lemma result_byDate:
  "byDate (aggregate_result getTime cm js) =
     fold (upd_usage dateKey \<lparr>minutes = 0, billableMinutes = 0, Usage.jobCount = 0\<rparr> (billing_of getTime cm))
       (filter completed js) Map.empty"
  by (simp add: aggregate_result_def Let_def fold_step_byDate initial_result_def)

lemma sum_list_mset_cong:
  fixes f :: "'a \<Rightarrow> real"
  assumes "mset xs = mset ys"
  shows "(\<Sum>x\<leftarrow>xs. f x) = (\<Sum>x\<leftarrow>ys. f x)"
proof -
  have "(\<Sum>x\<leftarrow>xs. f x) = sum_mset (image_mset f (mset xs))"
    by (simp add: sum_mset_sum_list [symmetric])
  also have "\<dots> = sum_mset (image_mset f (mset ys))"
    by (simp add: assms)
  also have "\<dots> = (\<Sum>x\<leftarrow>ys. f x)"
    by (simp add: sum_mset_sum_list [symmetric])
  finally show ?thesis .
qed

lemma processable_mset:
  assumes "mset js' = mset js"
  shows "processable cm js' = processable cm js"
proof -
  from assms have "set js' = set js" by (rule mset_eq_setD)
  then show ?thesis by (simp add: processable_def list_all_iff)
qed

lemma count_sum_update:
  assumes "finite (dom m)"
  shows "count_sum (m(k \<mapsto> v)) + (case m k of None \<Rightarrow> 0 | Some e \<Rightarrow> Usage.jobCount e) =
           Usage.jobCount v + count_sum m"
proof -
  let ?rest = "\<Sum>x \<in> dom m - {k}. Usage.jobCount (the (m x))"
  have fin: "finite (dom m - {k})" using assms by simp
  let ?g = "\<lambda>x. Usage.jobCount (the ((m(k \<mapsto> v)) x))"
  have d: "dom (m(k \<mapsto> v)) = insert k (dom m - {k})" by auto
  have "count_sum (m(k \<mapsto> v)) = (\<Sum>x \<in> insert k (dom m - {k}). ?g x)"
    unfolding count_sum_def d by (rule refl)
  also have "\<dots> = ?g k + (\<Sum>x \<in> dom m - {k}. ?g x)"
    by (rule sum.insert) (use assms in simp_all)
  also have "?g k = Usage.jobCount v"
    by simp
  also have "(\<Sum>x \<in> dom m - {k}. ?g x) = ?rest"
    by (rule sum.cong) simp_all
  finally have new: "count_sum (m(k \<mapsto> v)) = Usage.jobCount v + ?rest" .
  have old: "count_sum m = (case m k of None \<Rightarrow> 0 | Some e \<Rightarrow> Usage.jobCount e) + ?rest"
  proof (cases "m k")
    case None
    then have "dom m - {k} = dom m" by auto
    with None show ?thesis by (simp add: count_sum_def)
  next
    case (Some e)
    then have "k \<in> dom m" by auto
    from sum.remove [OF assms this, of "\<lambda>x. Usage.jobCount (the (m x))"] Some
    show ?thesis by (simp add: count_sum_def)
  qed
  from new old show ?thesis by simp
qed

lemma count_sum_Suc:
  assumes "finite (dom m)"
    and "Usage.jobCount v = Suc (case m k of None \<Rightarrow> 0 | Some e \<Rightarrow> Usage.jobCount e)"
  shows "count_sum (m(k \<mapsto> v)) = Suc (count_sum m)"
  using count_sum_update [OF assms(1), of k v] assms(2) by simp

lemma fold_upd_usage_counts:
  assumes "Usage.jobCount fresh = 0"
  shows "finite (dom m) \<Longrightarrow>
     finite (dom (fold (upd_usage key fresh b) js m))
     \<and> count_sum (fold (upd_usage key fresh b) js m) = count_sum m + length js"
proof (induction js arbitrary: m)
  case Nil
  then show ?case by simp
next
  case (Cons j js)
  let ?m = "upd_usage key fresh b j m"
  have fin: "finite (dom ?m)" using Cons.prems by (simp add: upd_usage_def)
  have "count_sum ?m = Suc (count_sum m)"
    unfolding upd_usage_def
    by (rule count_sum_Suc [OF Cons.prems])
       (simp add: accumulate_fields entry_or_def assms split: option.splits)
  with Cons.IH [OF fin] show ?case by simp
qed

lemma fold_upd_repo_counts:
  "finite (dom m) \<Longrightarrow>
     finite (dom (fold (upd_repo b) js m))
     \<and> count_sum (fold (upd_repo b) js m) = count_sum m + length js"
proof (induction js arbitrary: m)
  case Nil
  then show ?case by simp
next
  case (Cons j js)
  let ?m = "upd_repo b j m"
  have fin: "finite (dom ?m)" using Cons.prems by (simp add: upd_repo_def)
  have "count_sum ?m = Suc (count_sum m)"
    unfolding upd_repo_def
    by (rule count_sum_Suc [OF Cons.prems])
       (simp add: accumulate_fields entry_or_def split: option.splits)
  with Cons.IH [OF fin] show ?case by simp
qed

lemma fold_upd_os_counts: "os_count_sum (fold (upd_os b) js f) = os_count_sum f + length js"
proof (induction js arbitrary: f)
  case Nil
  then show ?case by simp
next
  case (Cons j js)
  have "os_count_sum (upd_os b j f) = Suc (os_count_sum f)"
    by (cases "BillingResult.os (b j)") (simp_all add: upd_os_def os_count_sum_def accumulate_fields)
  with Cons.IH [of "upd_os b j f"] show ?case by simp
qed

lemma count_sum_empty: "count_sum Map.empty = 0"
  by (simp add: count_sum_def)

lemma fold_upd_os_billable:
  assumes b: "\<And>j. BillingResult.billableMinutes (b j) = durationMinutes (b j) * MULTIPLIERS (BillingResult.os (b j))"
  shows "(\<And>t. Usage.billableMinutes (f t) = minutes (f t) * MULTIPLIERS t) \<Longrightarrow>
     Usage.billableMinutes (fold (upd_os b) js f t) = minutes (fold (upd_os b) js f t) * MULTIPLIERS t"
proof (induction js arbitrary: f t)
  case Nil
  then show ?case by simp
next
  case (Cons j js)
  have "\<And>t. Usage.billableMinutes (upd_os b j f t) = minutes (upd_os b j f t) * MULTIPLIERS t"
    using Cons.prems b [of j] by (simp add: upd_os_def accumulate_fields distrib_right)
  from Cons.IH [OF this] show ?case by simp
qed

lemma fold_upd_os_billable_sum:
  "os_billable_sum (fold (upd_os b) js f) =
     os_billable_sum f + (\<Sum>j\<leftarrow>js. BillingResult.billableMinutes (b j))"
proof (induction js arbitrary: f)
  case Nil
  then show ?case by simp
next
  case (Cons j js)
  have "os_billable_sum (upd_os b j f) = os_billable_sum f + BillingResult.billableMinutes (b j)"
    by (cases "BillingResult.os (b j)") (simp_all add: upd_os_def os_billable_sum_def accumulate_fields)
  with Cons.IH [of "upd_os b j f"] show ?case by simp
qed

lemma COST_PER_MINUTE_MULTIPLIERS: "COST_PER_MINUTE t = MULTIPLIERS t * 0.008"
  by (cases t) simp_all

lemma aggregateBilling_no_mappings:
  "aggregateBilling getTime js [] = Inr (aggregate_result getTime [] js)"
  by (simp add: aggregateBilling_eq processable_no_mappings)

lemma sample_completed:
  "completed job_a" "\<not> completed job_running" "completed job_windows"
  "completed job_backwards"
  by (simp_all add: completed_def job_a_def job_running_def job_windows_def job_backwards_def)

lemma sample_durations:
  "job_duration sample_clock job_a = 13"
  "job_duration sample_clock job_windows = 1"
  "job_duration sample_clock job_backwards = - 1"
  by (simp_all add: job_duration_def calculateDurationMinutes_div sample_clock_def job_a_def
      job_windows_def job_backwards_def)

lemma sample_detectOS:
  "detectOS (labels job_a) [] = Inr Linux"
  "detectOS (labels job_windows) [] = Inr Windows"
  unfolding job_a_def job_windows_def by (simp, code_simp) (simp, code_simp)

text \<open>
  The guard of the loops is \<^verbatim>\<open>if (!job.completed_at) continue\<close>:
  \<open>aggregateBilling\<close> counts exactly the jobs whose \<open>completed_at\<close> is truthy.
  \<open>jobCount\<close> is their number; the other jobs appear in no rollup and no total (the
  result is the result on the list without them); and the job counts of the four
  \<open>byOS\<close> buckets, of the \<open>byDate\<close> entries and of the \<open>byRepo\<close> entries
  each add up to \<open>jobCount\<close>.
\<close>

lemma aggregateBilling_counts_truthy:
  assumes "aggregateBilling getTime js cm = Inr r"
  shows "jobCount r = length (filter completed js)
     \<and> aggregateBilling getTime (filter completed js) cm = Inr r
     \<and> os_count_sum (byOS r) = jobCount r
     \<and> finite (dom (byDate r)) \<and> count_sum (byDate r) = jobCount r
     \<and> finite (dom (byRepo r)) \<and> count_sum (byRepo r) = jobCount r"
proof -
  from aggregateBilling_Inr [OF assms] have r: "r = aggregate_result getTime cm js"
    by simp
  have 1: "jobCount r = length (filter completed js)"
    by (simp add: r result_scalars)
  have 2: "aggregateBilling getTime (filter completed js) cm = Inr r"
    using assms aggregateBilling_filter [of getTime js cm] by simp
  have "os_count_sum (\<lambda>_. \<lparr>minutes = 0, billableMinutes = 0, Usage.jobCount = 0\<rparr>) = 0"
    by (simp add: os_count_sum_def)
  then have 3: "os_count_sum (byOS r) = jobCount r"
    by (simp add: r result_scalars result_byOS fold_upd_os_counts)
  have 4: "finite (dom (byDate r)) \<and> count_sum (byDate r) = jobCount r"
    unfolding r result_byDate result_scalars
    using fold_upd_usage_counts [of "\<lparr>minutes = 0, billableMinutes = 0, Usage.jobCount = 0\<rparr>" Map.empty dateKey
        "billing_of getTime cm" "filter completed js"]
    by (simp add: count_sum_empty)
  have 5: "finite (dom (byRepo r)) \<and> count_sum (byRepo r) = jobCount r"
    unfolding r result_byRepo result_scalars
    using fold_upd_repo_counts [of Map.empty "billing_of getTime cm" "filter completed js"]
    by (simp add: count_sum_empty)
  from 1 2 3 4 5 show ?thesis by simp
qed

text \<open>
  A completion timestamp is null or a date and time, which is not the empty string;
  then the truthy \<open>completed_at\<close> are the non-null ones.
\<close>

lemma completed_non_null:
  assumes "\<forall>j \<in> set js. completed_at j \<noteq> Some ''''"
  shows "filter completed js = filter (\<lambda>j. completed_at j \<noteq> None) js"
proof (rule filter_cong [OF refl])
  fix j
  assume "j \<in> set js"
  with assms have "completed_at j \<noteq> Some ''''" by simp
  then show "completed j = (completed_at j \<noteq> None)"
    by (cases "completed_at j") (simp_all add: completed_def)
qed

text \<open>
  C1. On every job list whose completion timestamps are null or dates and times (the
  empty string is no timestamp), \<open>aggregateBilling\<close> counts exactly the jobs with a
  non-null \<open>completed_at\<close>: \<open>jobCount\<close> is the number of such jobs; the jobs
  lacking a completion timestamp appear in no rollup and no total (the result is the
  result on the list without them); and the job counts per group partition the whole:
  those of the four \<open>byOS\<close> buckets, those of the \<open>byDate\<close> entries and those of
  the \<open>byRepo\<close> entries each add up to \<open>jobCount\<close>.
\<close>

theorem aggregateBilling_counts_completed_jobs:
  assumes "aggregateBilling getTime js cm = Inr r"
    and "\<forall>j \<in> set js. completed_at j \<noteq> Some ''''"
  shows "jobCount r = length (filter (\<lambda>j. completed_at j \<noteq> None) js)
     \<and> aggregateBilling getTime (filter (\<lambda>j. completed_at j \<noteq> None) js) cm = Inr r
     \<and> os_count_sum (byOS r) = jobCount r
     \<and> finite (dom (byDate r)) \<and> count_sum (byDate r) = jobCount r
     \<and> finite (dom (byRepo r)) \<and> count_sum (byRepo r) = jobCount r"
  using aggregateBilling_counts_truthy [OF assms(1)]
  unfolding completed_non_null [OF assms(2)] .

theorem aggregateBilling_counts_completed_jobs_witness:
  "sample_jobs = [job_a, job_running, job_windows]
   \<and> completed_at job_a \<noteq> Some '''' \<and> completed_at job_running \<noteq> Some ''''
   \<and> completed_at job_windows \<noteq> Some ''''
   \<and> filter (\<lambda>j. completed_at j \<noteq> None) sample_jobs = [job_a, job_windows]
   \<and> (\<exists>r. aggregateBilling sample_clock sample_jobs [] = Inr r
         \<and> aggregateBilling sample_clock [job_a, job_windows] [] = Inr r
         \<and> jobCount r = 2
         \<and> os_count_sum (byOS r) = 2 \<and> count_sum (byDate r) = 2 \<and> count_sum (byRepo r) = 2)"
proof -
  have s: "\<forall>j \<in> set sample_jobs. completed_at j \<noteq> Some ''''"
    by (simp add: sample_jobs_def job_a_def job_running_def job_windows_def)
  have f: "filter (\<lambda>j. completed_at j \<noteq> None) sample_jobs = [job_a, job_windows]"
    by (simp add: sample_jobs_def job_a_def job_running_def job_windows_def)
  from aggregateBilling_counts_completed_jobs
    [OF aggregateBilling_no_mappings [of sample_clock sample_jobs] s] f
  show ?thesis
    by (simp add: aggregateBilling_no_mappings sample_jobs_def job_a_def job_running_def
        job_windows_def)
qed

text \<open>
  C5. The aggregation does not depend on the order of the jobs: on a permutation of
  the job list, \<open>aggregateBilling\<close> fails in the same way or returns the same
  \<open>totalMinutes\<close>, \<open>totalBillableMinutes\<close>, \<open>jobCount\<close> and \<open>runCount\<close> and
  the same \<open>byOS\<close>, \<open>byWorkflow\<close> (with each \<open>runCount\<close>), \<open>byRepo\<close> (with
  each set of workflows) and \<open>byDate\<close>.
\<close>

theorem aggregateBilling_order_independent:
  assumes "mset js' = mset js"
  shows "(aggregateBilling getTime js cm = Inl SyntaxError \<and> aggregateBilling getTime js' cm = Inl SyntaxError)
     \<or> (\<exists>r r'. aggregateBilling getTime js cm = Inr r \<and> aggregateBilling getTime js' cm = Inr r'
          \<and> totalMinutes r' = totalMinutes r
          \<and> totalBillableMinutes r' = totalBillableMinutes r
          \<and> jobCount r' = jobCount r
          \<and> runCount r' = runCount r
          \<and> byOS r' = byOS r
          \<and> byWorkflow r' = byWorkflow r
          \<and> byRepo r' = byRepo r
          \<and> byDate r' = byDate r)"
proof (cases "processable cm js")
  case False
  with processable_mset [OF assms, of cm] show ?thesis
    by (simp add: aggregateBilling_eq)
next
  case True
  with processable_mset [OF assms, of cm] have p': "processable cm js'" by simp
  let ?xs = "filter completed js" and ?ys = "filter completed js'"
  let ?r = "aggregate_result getTime cm js" and ?r' = "aggregate_result getTime cm js'"
  from assms have m: "mset ?ys = mset ?xs" by simp
  then have s: "set ?ys = set ?xs" by (rule mset_eq_setD)
  have 1: "totalMinutes ?r' = totalMinutes ?r"
    unfolding result_scalars by (rule sum_list_mset_cong [OF m])
  have 2: "totalBillableMinutes ?r' = totalBillableMinutes ?r"
    unfolding result_scalars by (rule sum_list_mset_cong [OF m])
  have 3: "jobCount ?r' = jobCount ?r"
    unfolding result_scalars by (rule mset_eq_length [OF m])
  have 4: "runCount ?r' = runCount ?r"
    unfolding result_scalars by (simp only: s)
  have 5: "byOS ?r' = byOS ?r"
    unfolding result_byOS
    by (simp only: fold_multiset_equiv [OF upd_os_commute m])
  have runs: "fold upd_runs ?ys = fold upd_runs ?xs"
    by (rule fold_multiset_equiv [OF upd_runs_commute m])
  have 6: "byWorkflow ?r' = byWorkflow ?r"
    unfolding result_byWorkflow
    by (simp only: runs fold_multiset_equiv [OF upd_usage_commute m])
  have 7: "byRepo ?r' = byRepo ?r"
    unfolding result_byRepo
    by (simp only: fold_multiset_equiv [OF upd_repo_commute m])
  have 8: "byDate ?r' = byDate ?r"
    unfolding result_byDate
    by (simp only: fold_multiset_equiv [OF upd_usage_commute m])
  from True p' 1 2 3 4 5 6 7 8 show ?thesis
    by (simp add: aggregateBilling_eq)
qed

theorem aggregateBilling_order_independent_witness:
  "mset [job_windows, job_running, job_a] = mset sample_jobs
   \<and> (\<exists>r r'. aggregateBilling sample_clock sample_jobs [] = Inr r
         \<and> aggregateBilling sample_clock [job_windows, job_running, job_a] [] = Inr r'
         \<and> totalMinutes r' = totalMinutes r \<and> totalMinutes r = 14
         \<and> totalBillableMinutes r' = totalBillableMinutes r
         \<and> jobCount r' = jobCount r
         \<and> runCount r' = runCount r
         \<and> byOS r' = byOS r
         \<and> byWorkflow r' = byWorkflow r
         \<and> byRepo r' = byRepo r
         \<and> byDate r' = byDate r)"
proof -
  have m: "mset [job_windows, job_running, job_a] = mset sample_jobs"
    by (simp add: sample_jobs_def)
  have t: "totalMinutes (aggregate_result sample_clock [] sample_jobs) = 14"
    by (simp add: result_scalars sample_jobs_def sample_completed sample_durations)
  from aggregateBilling_order_independent [OF m, of sample_clock "[]"] m t
  show ?thesis
    by (simp add: aggregateBilling_no_mappings)
qed

lemma job_duration_whole: "job_duration getTime j \<in> \<int>"
  by (simp add: job_duration_def calculateDurationMinutes_def Let_def split: option.splits)

lemma fold_upd_os_minutes_whole:
  assumes b: "\<And>j. durationMinutes (b j) \<in> \<int>"
  shows "(\<And>t. minutes (f t) \<in> \<int>) \<Longrightarrow> minutes (fold (upd_os b) js f t) \<in> \<int>"
proof (induction js arbitrary: f t)
  case Nil
  then show ?case by simp
next
  case (Cons j js)
  have "\<And>t. minutes (upd_os b j f t) \<in> \<int>"
    using Cons.prems b [of j] by (simp add: upd_os_def accumulate_fields)
  from Cons.IH [OF this] show ?case by simp
qed

lemma whole_minutes:
  fixes x :: real
  assumes "x \<in> \<int>" and "0 \<le> x"
  shows "x = 0 \<or> 1 \<le> x"
proof -
  from assms(1) obtain n :: int where n: "x = of_int n" by (rule Ints_cases)
  with assms(2) have "n = 0 \<or> 1 \<le> n" by auto
  with n show ?thesis by auto
qed

lemma sample_result_minutes:
  "minutes (byOS (aggregate_result sample_clock [] sample_jobs) Linux) = 13"
  "minutes (byOS (aggregate_result sample_clock [] sample_jobs) Windows) = 1"
  "minutes (byOS (aggregate_result sample_clock [] sample_jobs) Macos) = 0"
  "minutes (byOS (aggregate_result sample_clock [] sample_jobs) Unknown) = 0"
  by (simp_all add: result_byOS sample_jobs_def sample_completed upd_os_def billing_of_def
      sample_detectOS sample_durations accumulate_fields)

lemma sample_result_billable:
  "totalBillableMinutes (aggregate_result sample_clock [] sample_jobs) = 15"
  by (simp add: result_scalars sample_jobs_def sample_completed billing_of_def sample_durations
      sample_detectOS)

text \<open>
  C9. In every result of \<open>aggregateBilling\<close> and for each of the four OS categories,
  the billable minutes of the category are its minutes times its multiplier (linux 1,
  windows 2, macos 10, unknown 1), because the billable minutes of every job are its
  duration times the multiplier of its detected OS; hence the sum over the categories
  of the minutes times the rate of the category is, in exact arithmetic,
  \<open>totalBillableMinutes\<close> times 0.008. \<open>estimateCost\<close> computes that sum in double
  precision: when no category has negative minutes, it is within a relative error of
  \<open>2 ^ - 50\<close> of \<open>totalBillableMinutes\<close> times 0.008.
\<close>

theorem billable_is_minutes_times_multiplier:
  assumes "aggregateBilling getTime js cm = Inr r"
  shows "Usage.billableMinutes (byOS r Linux) = minutes (byOS r Linux) * 1
     \<and> Usage.billableMinutes (byOS r Windows) = minutes (byOS r Windows) * 2
     \<and> Usage.billableMinutes (byOS r Macos) = minutes (byOS r Macos) * 10
     \<and> Usage.billableMinutes (byOS r Unknown) = minutes (byOS r Unknown) * 1
     \<and> (\<forall>b \<in> set (jobs r).
           multiplier b = MULTIPLIERS (BillingResult.os b)
           \<and> BillingResult.billableMinutes b = durationMinutes b * multiplier b)
     \<and> spec_estimateCost r = totalBillableMinutes r * 0.008
     \<and> ((\<forall>t. 0 \<le> minutes (byOS r t))
        \<longrightarrow> \<bar>estimateCost r - totalBillableMinutes r * 0.008\<bar>
              \<le> totalBillableMinutes r * 0.008 / 2 ^ 50)"
proof -
  from aggregateBilling_Inr [OF assms] have r: "r = aggregate_result getTime cm js"
    by simp
  let ?f = "byOS r"
  have os: "Usage.billableMinutes (?f t) = minutes (?f t) * MULTIPLIERS t" for t
    unfolding r result_byOS
    by (rule fold_upd_os_billable) (simp_all add: billing_of_fields)
  have "os_billable_sum (\<lambda>_. \<lparr>minutes = 0, billableMinutes = 0, Usage.jobCount = 0\<rparr>) = 0"
    by (simp add: os_billable_sum_def)
  then have total: "totalBillableMinutes r = os_billable_sum ?f"
    unfolding r result_byOS result_scalars
    by (simp add: fold_upd_os_billable_sum)
  have jobs: "\<forall>b \<in> set (jobs r).
           multiplier b = MULTIPLIERS (BillingResult.os b)
           \<and> BillingResult.billableMinutes b = durationMinutes b * multiplier b"
    unfolding r result_scalars by (auto simp: billing_of_def Let_def)
  have "spec_estimateCost r =
      (minutes (?f Linux) * MULTIPLIERS Linux + minutes (?f Windows) * MULTIPLIERS Windows
        + minutes (?f Macos) * MULTIPLIERS Macos + minutes (?f Unknown) * MULTIPLIERS Unknown) * 0.008"
    by (simp add: spec_estimateCost_def)
  also have "\<dots> = os_billable_sum ?f * 0.008"
    unfolding os_billable_sum_def by (simp only: os)
  finally have cost: "spec_estimateCost r = totalBillableMinutes r * 0.008"
    by (simp only: total)
  have whole: "minutes (?f t) \<in> \<int>" for t
    unfolding r result_byOS
    by (rule fold_upd_os_minutes_whole) (simp_all add: billing_of_fields job_duration_whole)
  have error: "\<bar>estimateCost r - totalBillableMinutes r * 0.008\<bar>
      \<le> totalBillableMinutes r * 0.008 / 2 ^ 50" if "\<forall>t. 0 \<le> minutes (?f t)"
  proof -
    have "minutes (?f t) = 0 \<or> 1 \<le> minutes (?f t)" for t
      using whole [of t] that by (intro whole_minutes) simp_all
    from estimateCost_error [of r, OF this] show ?thesis
      by (simp only: cost)
  qed
  from os [of Linux] os [of Windows] os [of Macos] os [of Unknown] jobs cost error show ?thesis
    by simp
qed

text \<open>
  As the specification words it, C9 has the cost formula coincide with
  \<open>totalBillableMinutes\<close> times 0.008. For a job of 13 minutes on Linux and a job of
  one minute on Windows, \<open>estimateCost\<close> is the double \<open>8646911284551353 / 2 ^ 56\<close>
  (0.12000000000000001), while 15 times 0.008 is 0.12, and in double precision
  \<open>8646911284551352 / 2 ^ 56\<close>.
\<close>

theorem estimateCost_billable_counterexample:
  "\<exists>r. aggregateBilling sample_clock sample_jobs [] = Inr r
     \<and> minutes (byOS r Linux) = 13 \<and> minutes (byOS r Windows) = 1
     \<and> minutes (byOS r Macos) = 0 \<and> minutes (byOS r Unknown) = 0
     \<and> totalBillableMinutes r = 15
     \<and> estimateCost r = 8646911284551353 / 2 ^ 56
     \<and> double (totalBillableMinutes r * double 0.008) = 8646911284551352 / 2 ^ 56
     \<and> estimateCost r \<noteq> totalBillableMinutes r * 0.008
     \<and> estimateCost r \<noteq> double (totalBillableMinutes r * double 0.008)"
proof -
  let ?r = "aggregate_result sample_clock [] sample_jobs"
  have e: "estimateCost ?r = 8646911284551353 / 2 ^ 56"
    by (intro estimateCost_13_1_0_0 sample_result_minutes)
  have d: "double (15 * double 0.008) = 8646911284551352 / 2 ^ 56"
    by (simp only: double_rates double_13_1)
  from e d show ?thesis
    by (simp add: aggregateBilling_no_mappings sample_result_minutes sample_result_billable)
qed

theorem billable_is_minutes_times_multiplier_witness:
  "\<exists>r. aggregateBilling sample_clock sample_jobs [] = Inr r
     \<and> totalBillableMinutes r = 15
     \<and> Usage.billableMinutes (byOS r Windows) = minutes (byOS r Windows) * 2
     \<and> spec_estimateCost r = 15 * 0.008
     \<and> (\<forall>t. 0 \<le> minutes (byOS r t))
     \<and> \<bar>estimateCost r - 15 * 0.008\<bar> \<le> 15 * 0.008 / 2 ^ 50"
proof -
  let ?r = "aggregate_result sample_clock [] sample_jobs"
  have m: "\<forall>t. 0 \<le> minutes (byOS ?r t)"
  proof
    fix t
    show "0 \<le> minutes (byOS ?r t)"
      by (cases t) (simp_all add: sample_result_minutes)
  qed
  from billable_is_minutes_times_multiplier
    [OF aggregateBilling_no_mappings [of sample_clock sample_jobs]] m sample_result_billable
  show ?thesis
    by (simp add: aggregateBilling_no_mappings)
qed

text \<open>
  C10. \<open>calculateDurationMinutes\<close> has no lower bound: it is 0 when the job completes
  at the instant it starts, and negative when it completes a minute or more before it
  starts. \<open>aggregateBilling\<close> filters no duration: every completed job is counted in
  \<open>jobCount\<close>, and \<open>totalMinutes\<close> is the sum of the durations of all of them,
  the zero and the negative ones included.
\<close>

theorem durations_have_no_lower_bound:
  "calculateDurationMinutes getTime startedAt startedAt = 0
   \<and> (getTime completedAt + 60000 \<le> getTime startedAt \<longrightarrow>
        calculateDurationMinutes getTime startedAt completedAt < 0)
   \<and> (aggregateBilling getTime js cm = Inr r \<longrightarrow>
        jobCount r = length (filter completed js)
        \<and> totalMinutes r = (\<Sum>j\<leftarrow>filter completed js. job_duration getTime j)
        \<and> map durationMinutes (jobs r) = map (job_duration getTime) (filter completed js))"
proof (intro conjI impI)
  show "calculateDurationMinutes getTime startedAt startedAt = 0"
    by (simp add: calculateDurationMinutes_div)
next
  assume "getTime completedAt + 60000 \<le> getTime startedAt"
  then have "1 \<le> (getTime startedAt - getTime completedAt) div 60000"
    by (simp add: pos_imp_zdiv_pos_iff zdiv_mono1 le_div_geq) 
  then show "calculateDurationMinutes getTime startedAt completedAt < 0"
    by (simp add: calculateDurationMinutes_div)
next
  assume a: "aggregateBilling getTime js cm = Inr r"
  from aggregateBilling_Inr [OF a] have r: "r = aggregate_result getTime cm js"
    by simp
  show "jobCount r = length (filter completed js)"
    by (simp add: r result_scalars)
  show "totalMinutes r = (\<Sum>j\<leftarrow>filter completed js. job_duration getTime j)"
    by (simp add: r result_scalars)
  show "map durationMinutes (jobs r) = map (job_duration getTime) (filter completed js)"
    by (simp add: r result_scalars billing_of_fields comp_def)
qed

theorem durations_have_no_lower_bound_witness:
  "sample_clock ''2024-01-01T00:00:00Z'' + 60000 \<le> sample_clock ''2024-01-01T00:01:01Z''
   \<and> calculateDurationMinutes sample_clock ''2024-01-01T00:01:01Z'' ''2024-01-01T00:00:00Z'' < 0
   \<and> (\<exists>r. aggregateBilling sample_clock [job_a, job_backwards] [] = Inr r
         \<and> jobCount r = 2 \<and> totalMinutes r = 12
         \<and> map durationMinutes (jobs r) = [13, - 1])"
proof -
  have c: "sample_clock ''2024-01-01T00:00:00Z'' + 60000 \<le> sample_clock ''2024-01-01T00:01:01Z''"
    by (simp add: sample_clock_def)
  have f: "filter completed [job_a, job_backwards] = [job_a, job_backwards]"
    by (simp add: sample_completed)
  from durations_have_no_lower_bound
    [of sample_clock "''2024-01-01T00:01:01Z''" "''2024-01-01T00:00:00Z''" "[job_a, job_backwards]" "[]"
      "aggregate_result sample_clock [] [job_a, job_backwards]"] c f
  show ?thesis
    by (simp add: aggregateBilling_no_mappings sample_durations)
qed

section \<open>OS detection and glob matching\<close>

text \<open>
  C3 describes \<open>detectOS\<close> as \<open>spec_detectOS\<close>: custom mappings in order, each
  tested against every label by case-insensitive glob matching of the whole label in
  which \<^verbatim>\<open>*\<close> is the wildcard, then the built-in substring table, then unknown.
  The code does not escape the question mark, which reaches the regular expression as
  a quantifier: the pattern \<^verbatim>\<open>runner-?\<close> matches the label \<^verbatim>\<open>runner\<close>, which
  no glob reading of it does, and the pattern \<^verbatim>\<open>?\<close> makes \<open>detectOS\<close> throw a
  \<^verbatim>\<open>SyntaxError\<close>. The two examples of the specification hold.
\<close>

theorem detectOS_question_mark:
  "detectOS [''runner''] [\<lparr>pattern = ''runner-?'', os = Linux\<rparr>] = Inr Linux
   \<and> spec_detectOS [''runner''] [\<lparr>pattern = ''runner-?'', os = Linux\<rparr>] = Unknown
   \<and> detectOS [''self-hosted''] [\<lparr>pattern = ''?'', os = Linux\<rparr>] = Inl SyntaxError
   \<and> spec_detectOS [''self-hosted''] [\<lparr>pattern = ''?'', os = Linux\<rparr>] = Unknown
   \<and> detectOS [''self-hosted'', ''runner-42-prod''] [\<lparr>pattern = ''runner-*'', os = Linux\<rparr>] = Inr Linux
   \<and> detectOS [''self-hosted'', ''runner-42-prod''] [] = Inr Unknown"
  by code_simp

text \<open>
  Away from the question mark the code is the procedure of the specification: the rewritten
  pattern parses to one term per character, and the anchored match of these terms is
  the glob match.
\<close>

lemma star_not_special: "CHR ''*'' \<notin> set special_chars" "CHR ''?'' \<notin> set special_chars"
  by (simp_all add: special_chars_def backslash_def)

lemma rewrite_pattern: "replaceStar (escapeSpecial p) = concat (map rewrite_char p)"
proof (induction p)
  case Nil
  then show ?case by (simp add: replaceStar_def escapeSpecial_def)
next
  case (Cons c p)
  have "replaceStar (escapeSpecial (c # p)) =
      replaceStar (if c \<in> set special_chars then [backslash, c] else [c]) @ replaceStar (escapeSpecial p)"
    by (simp add: replaceStar_def escapeSpecial_def)
  moreover have "replaceStar (if c \<in> set special_chars then [backslash, c] else [c]) = rewrite_char c"
    using star_not_special
    by (auto simp: replaceStar_def rewrite_char_def backslash_def)
  ultimately show ?case using Cons.IH by simp
qed

lemma quantifier_none: "no_quantifier_ahead s \<Longrightarrow> quantifier s = (One, s)"
  by (cases s) (simp_all add: no_quantifier_ahead_def)

lemma quantifier_star: "no_quantifier_ahead s \<Longrightarrow> quantifier (CHR ''*'' # s) = (Star, s)"
  by (cases s) (simp_all add: no_quantifier_ahead_def)

lemma rewrite_no_quantifier:
  "CHR ''?'' \<notin> set p \<Longrightarrow> no_quantifier_ahead (concat (map rewrite_char p) @ ''$'')"
  by (cases p) (auto simp: no_quantifier_ahead_def rewrite_char_def backslash_def)

lemma RegExp_rewrite_char:
  assumes "c \<noteq> CHR ''?''" and "no_quantifier_ahead rest"
  shows "RegExp (rewrite_char c @ rest) = cons_node (node_of c) (RegExp rest)"
proof (cases "c \<in> set special_chars")
  case True
  then have "rewrite_char c @ rest = backslash # c # rest"
    by (simp add: rewrite_char_def)
  moreover from True have "node_of c = Term (Lit c) One"
    using star_not_special by (auto simp: node_of_def)
  ultimately show ?thesis
    using assms(2) by (simp add: quantifier_none backslash_def del: quantifier.simps)
next
  case False
  show ?thesis
  proof (cases "c = CHR ''*''")
    case True
    with False have "rewrite_char c @ rest = CHR ''.'' # CHR ''*'' # rest"
      by (simp add: rewrite_char_def)
    with True assms(2) show ?thesis
      by (simp add: quantifier_star node_of_def backslash_def del: quantifier.simps)
  next
    case star: False
    with False have r: "rewrite_char c @ rest = c # rest"
      by (simp add: rewrite_char_def)
    from False have "c \<noteq> CHR ''^''" "c \<noteq> CHR ''$''" "c \<noteq> backslash" "c \<noteq> CHR ''.''"
      by (auto simp: special_chars_def)
    with star assms show ?thesis
      unfolding r by (simp add: quantifier_none node_of_def del: quantifier.simps)
  qed
qed

lemma RegExp_rewrite:
  "CHR ''?'' \<notin> set p \<Longrightarrow>
     RegExp (concat (map rewrite_char p) @ ''$'') = Inr (map node_of p @ [Eol])"
proof (induction p)
  case Nil
  then show ?case by (simp add: backslash_def)
next
  case (Cons c p)
  then have c: "c \<noteq> CHR ''?''" and p: "CHR ''?'' \<notin> set p"
    by auto
  from RegExp_rewrite_char [OF c rewrite_no_quantifier [OF p]] Cons.IH [OF p]
  show ?case by simp
qed

lemma RegExp_pattern:
  assumes "CHR ''?'' \<notin> set p"
  shows "RegExp (''^'' @ replaceStar (escapeSpecial p) @ ''$'') = Inr (Bol # map node_of p @ [Eol])"
  using RegExp_rewrite [OF assms] by (simp add: rewrite_pattern)

lemma match_here_glob:
  "\<forall>c \<in> set s. \<not> line_terminator c \<Longrightarrow>
     match_here (map node_of p @ [Eol]) at_start s = spec_glob_match p s"
proof (induction p s arbitrary: at_start rule: spec_glob_match.induct)
  case (1 s)
  then show ?case by simp
next
  case (2 p ps)
  then show ?case by (simp add: node_of_def)
next
  case (3 p ps c cs)
  show ?case
  proof (cases "p = CHR ''*''")
    case True
    with 3 show ?thesis by (auto simp: node_of_def)
  next
    case False
    with 3 show ?thesis by (simp add: node_of_def)
  qed
qed

lemma search_Bol_not_at_start: "search (Bol # ns) False s = False"
  by (induction s) simp_all

lemma test_anchored: "RegExp_test (Bol # ns) s = match_here ns True s"
  by (cases s) (simp_all add: RegExp_test_def search_Bol_not_at_start)

lemma matchesPattern_glob:
  assumes "CHR ''?'' \<notin> set p" and "\<forall>c \<in> set label. \<not> line_terminator c"
  shows "matchesPattern label p = Inr (spec_glob_match p label)"
  using RegExp_pattern [OF assms(1)] match_here_glob [OF assms(2)]
  by (simp add: matchesPattern_def Let_def test_anchored)

lemma lower_char_idem: "lower_char (lower_char c) = lower_char c"
  by (simp add: lower_char_def)

lemma line_terminator_lower: "line_terminator (lower_char c) = line_terminator c"
  by (simp add: lower_char_def line_terminator_def)

lemma glob_lower: "spec_glob_match p (toLowerCase s) = spec_glob_match p s"
  unfolding toLowerCase_def
  by (induction p s rule: spec_glob_match.induct) (simp_all add: lower_char_idem)

lemma custom_labels_glob:
  assumes "CHR ''?'' \<notin> set p"
  shows "\<forall>l \<in> set ls. \<forall>c \<in> set l. \<not> line_terminator c \<Longrightarrow>
     custom_labels ls p = Inr (\<exists>l \<in> set ls. spec_glob_match p l)"
proof (induction ls)
  case Nil
  then show ?case by simp
next
  case (Cons l ls)
  then have "matchesPattern l p = Inr (spec_glob_match p l)"
    by (intro matchesPattern_glob [OF assms]) simp
  with Cons show ?case by (simp split: bool.splits)
qed

lemma custom_loop_glob:
  assumes "\<forall>l \<in> set ls. \<forall>c \<in> set l. \<not> line_terminator c"
  shows "\<forall>m \<in> set cm. CHR ''?'' \<notin> set (pattern m) \<Longrightarrow>
     custom_loop ls cm =
       Inr (map_option LabelMapping.os (find (\<lambda>m. \<exists>l \<in> set ls. spec_glob_match (pattern m) l) cm))"
proof (induction cm)
  case Nil
  then show ?case by simp
next
  case (Cons m cm)
  then have "custom_labels ls (pattern m) = Inr (\<exists>l \<in> set ls. spec_glob_match (pattern m) l)"
    by (intro custom_labels_glob assms) simp
  with Cons show ?case by (simp split: bool.splits)
qed

lemma default_loop_find:
  "default_loop ls ms =
     map_option LabelMapping.os (find (\<lambda>m. \<exists>l \<in> set ls. includes_str l (pattern m)) ms)"
  by (induction ms) simp_all

lemma default_table:
  "default_loop (map toLowerCase ls) DEFAULT_PATTERNS =
     map_option snd (find (\<lambda>entry. \<exists>l \<in> set ls. includes_str (toLowerCase l) (fst entry)) spec_table)"
  by (simp add: DEFAULT_PATTERNS_def spec_table_def)

text \<open>
  For custom mappings whose patterns contain no question mark, and labels without line
  terminators (which the dot of \<^verbatim>\<open>.*\<close> does not match), \<open>detectOS\<close> returns
  what \<open>spec_detectOS\<close> returns.
\<close>

lemma detectOS_refines_glob:
  assumes "\<forall>m \<in> set cm. CHR ''?'' \<notin> set (pattern m)"
    and "\<forall>l \<in> set ls. \<forall>c \<in> set l. \<not> line_terminator c"
  shows "detectOS ls cm = Inr (spec_detectOS ls cm)"
proof -
  let ?ls = "map toLowerCase ls"
  from assms(2) have t: "\<forall>l \<in> set ?ls. \<forall>c \<in> set l. \<not> line_terminator c"
    by (auto simp: toLowerCase_def line_terminator_lower)
  have g: "(\<lambda>m. \<exists>l \<in> set ?ls. spec_glob_match (pattern m) l) =
      (\<lambda>m. \<exists>l \<in> set ls. spec_glob_match (pattern m) l)"
    by (simp add: glob_lower)
  from custom_loop_glob [OF t assms(1)] have c: "custom_loop ?ls cm =
      Inr (map_option LabelMapping.os (find (\<lambda>m. \<exists>l \<in> set ls. spec_glob_match (pattern m) l) cm))"
    by (simp only: g)
  show ?thesis
    unfolding detectOS_def spec_detectOS_def Let_def c default_table
    by (simp split: option.splits)
qed

lemma detectOS_refines_glob_example:
  "(\<forall>m \<in> set [\<lparr>pattern = ''runner-*'', os = Linux\<rparr>]. CHR ''?'' \<notin> set (pattern m))
   \<and> (\<forall>l \<in> set [''self-hosted'', ''runner-42-prod'']. \<forall>c \<in> set l. \<not> line_terminator c)
   \<and> detectOS [''self-hosted'', ''runner-42-prod''] [\<lparr>pattern = ''runner-*'', os = Linux\<rparr>] = Inr Linux
   \<and> spec_detectOS [''self-hosted'', ''runner-42-prod''] [\<lparr>pattern = ''runner-*'', os = Linux\<rparr>] = Linux"
proof -
  have a: "\<forall>m \<in> set [\<lparr>pattern = ''runner-*'', os = Linux\<rparr>]. CHR ''?'' \<notin> set (pattern m)"
    by simp
  have b: "\<forall>l \<in> set [''self-hosted'', ''runner-42-prod'']. \<forall>c \<in> set l. \<not> line_terminator c"
    by (simp add: line_terminator_def)
  have s: "spec_detectOS [''self-hosted'', ''runner-42-prod''] [\<lparr>pattern = ''runner-*'', os = Linux\<rparr>] = Linux"
    by code_simp
  from detectOS_refines_glob [OF a b] a b s show ?thesis
    by simp
qed

end
